theory Spec2Isabelle
  imports Main "HOL-Library.Word" "HOL-Library.Signed_Division" "HOL-Library.Multiset"
begin

unbundle bit_operations_syntax

section \<open>The ADI graph engine (internal/adi.go and the Box node)\<close>

subsection \<open>Data model\<close>

text \<open>
  Go's \<open>int\<close> is modelled by \<open>int\<close>: every integer of the engine is a slice length, an
  index into a slice, the word size or the sentinel \<open>-1\<close>, far from the 64-bit bounds.
  \<open>byte\<close> is \<open>8 word\<close>.  Go's \<open>/\<close> and \<open>%\<close> truncate towards zero (\<open>sdiv\<close> and \<open>smod\<close>)
  and panic on a zero divisor.

  An \<open>ADINode\<close> in the node table is a non-nil \<open>*Box\<close>: the graph holds pointers, and every
  edge mutation goes through the pointer.  The heap maps an address to the \<open>Box\<close> stored
  there; a method with receiver \<open>s *Box\<close> is a function from the \<open>Box\<close> to the updated
  \<open>Box\<close>, which the caller writes back at the address.  The payload \<open>contents\<close> is never
  read by the graph; \<open>NewBox\<close> stores the empty string.

  A function that can panic returns \<open>panic + result\<close>; a Go result \<open>(value, error)\<close> is
  \<open>go_error + value\<close> where the value is nil exactly when the error is set, and a pair
  with \<open>go_error option\<close> where the value is meaningful beside the error.
\<close>

type_synonym byte = "8 word"
type_synonym addr = nat

datatype go_error = errGraphBoundsMismatch | errLabelNotFound | errDeleted

text \<open>Run-time panics of Go; each one terminates the process.\<close>

datatype panic = IndexOutOfRange | NilDereference | DivideByZero

record Box =
  label :: string
  contents :: string
  adis :: "byte list"
  deleted :: bool

record Locator =
  column :: int
  offset :: byte

record ADIGraph =
  growthFactor :: int
  wordSize :: int
  nodes :: "addr list"
  labels :: "string \<rightharpoonup> int"

type_synonym heap = "addr \<Rightarrow> Box"

subsection \<open>Box\<close>

definition NewBox :: "string \<Rightarrow> Box" where
  "NewBox l = \<lparr>label = l, contents = [], adis = [0, 0], deleted = False\<rparr>"

definition AddColumn :: "Box \<Rightarrow> Box" where
  "AddColumn s = s\<lparr>adis := adis s @ [0]\<rparr>"

text \<open>\<open>s.adis[v.column]\<close> panics when the column is outside the slice.\<close>

fun AddEdges :: "Box \<Rightarrow> Locator list \<Rightarrow> panic + Box" where
  "AddEdges s [] = Inr s"
| "AddEdges s (v # vs) =
     (if 0 \<le> column v \<and> column v < int (length (adis s))
      then AddEdges (s\<lparr>adis := (adis s)[nat (column v) := (adis s ! nat (column v)) OR offset v]\<rparr>) vs
      else Inl IndexOutOfRange)"

fun RemoveEdges :: "Box \<Rightarrow> Locator list \<Rightarrow> panic + Box" where
  "RemoveEdges s [] = Inr s"
| "RemoveEdges s (v # vs) =
     (if 0 \<le> column v \<and> column v < int (length (adis s))
      then RemoveEdges (s\<lparr>adis := (adis s)[nat (column v) := (adis s ! nat (column v)) AND NOT (offset v)]\<rparr>) vs
      else Inl IndexOutOfRange)"

fun HasEdges_all :: "Box \<Rightarrow> Locator list \<Rightarrow> panic + bool" where
  "HasEdges_all s [] = Inr True"
| "HasEdges_all s (v # vs) =
     (if 0 \<le> column v \<and> column v < int (length (adis s))
      then (if (adis s ! nat (column v)) AND offset v \<noteq> offset v then Inr False
            else HasEdges_all s vs)
      else Inl IndexOutOfRange)"

fun HasEdges_any :: "Box \<Rightarrow> Locator list \<Rightarrow> panic + bool" where
  "HasEdges_any s [] = Inr False"
| "HasEdges_any s (v # vs) =
     (if 0 \<le> column v \<and> column v < int (length (adis s))
      then (if (adis s ! nat (column v)) AND offset v > 0 then Inr True
            else HasEdges_any s vs)
      else Inl IndexOutOfRange)"

definition HasEdges :: "Box \<Rightarrow> bool \<Rightarrow> Locator list \<Rightarrow> panic + bool" where
  "HasEdges s strict locators = (if strict then HasEdges_all s locators else HasEdges_any s locators)"

definition Delete :: "Box \<Rightarrow> Box" where
  "Delete s = s\<lparr>deleted := True\<rparr>"

subsection \<open>Graph: construction, lookup, locators\<close>

definition NewGraph :: ADIGraph where
  "NewGraph = \<lparr>growthFactor = 0, wordSize = 8, nodes = [], labels = Map.empty\<rparr>"

definition Size :: "ADIGraph \<Rightarrow> int" where
  "Size g = int (length (nodes g))"

text \<open>
  \<open>GetByIndex\<close> returns \<open>(nil, errDeleted)\<close> for the sentinel and \<open>(g.nodes[index], nil)\<close>
  otherwise; the slice access panics outside the table.
\<close>

definition GetByIndex :: "ADIGraph \<Rightarrow> int \<Rightarrow> panic + (go_error + addr)" where
  "GetByIndex g index =
     (if index = -1 then Inr (Inl errDeleted)
      else if 0 \<le> index \<and> index < int (length (nodes g)) then Inr (Inr (nodes g ! nat index))
      else Inl IndexOutOfRange)"

definition GetByLabel :: "ADIGraph \<Rightarrow> string \<Rightarrow> panic + (go_error + addr)" where
  "GetByLabel g l =
     (case labels g l of
        Some index \<Rightarrow> GetByIndex g index
      | None \<Rightarrow> Inr (Inl errLabelNotFound))"

text \<open>
  \<open>Locator{column, 1 << byte(offset)}\<close>: the shift is done in the field's type \<open>byte\<close>,
  the shift count is the offset converted to \<open>byte\<close>.
\<close>

definition GetLocatorsByIndex :: "ADIGraph \<Rightarrow> int \<Rightarrow> panic + (Locator \<times> go_error option)" where
  "GetLocatorsByIndex g n =
     (if n = -1 then Inr (\<lparr>column = 0, offset = 0\<rparr>, Some errDeleted)
      else if wordSize g = 0 then Inl DivideByZero
      else Inr (\<lparr>column = n sdiv wordSize g,
                 offset = push_bit (unat (word_of_int (n smod wordSize g) :: byte)) 1\<rparr>, None))"

definition GetLocatorsByLabel :: "ADIGraph \<Rightarrow> string \<Rightarrow> panic + (Locator \<times> go_error option)" where
  "GetLocatorsByLabel g l =
     (case labels g l of
        Some index \<Rightarrow> GetLocatorsByIndex g index
      | None \<Rightarrow> Inr (\<lparr>column = 0, offset = 0\<rparr>, Some errLabelNotFound))"

subsection \<open>Graph: insertion and growth\<close>

definition Grow :: "heap \<Rightarrow> ADIGraph \<Rightarrow> heap \<times> ADIGraph" where
  "Grow h g =
     (fold (\<lambda>node h'. h'(node := AddColumn (h' node))) (nodes g) h,
      g\<lparr>growthFactor := growthFactor g + 1\<rparr>)"

text \<open>
  Both branches of \<open>AddNode\<close> record the label and append the node; the first one, taken
  when the table length before the append is at least the word size and a multiple of it,
  grows afterwards.  The error returned is always nil.
\<close>

definition append_node :: "heap \<Rightarrow> ADIGraph \<Rightarrow> addr \<Rightarrow> ADIGraph" where
  "append_node h g n =
     g\<lparr>labels := (labels g)(label (h n) \<mapsto> int (length (nodes g))), nodes := nodes g @ [n]\<rparr>"

definition AddNode :: "heap \<Rightarrow> ADIGraph \<Rightarrow> addr \<Rightarrow> panic + (heap \<times> ADIGraph \<times> go_error option)" where
  "AddNode h g n =
     (if int (length (nodes g)) > wordSize g - 1
      then (if wordSize g = 0 then Inl DivideByZero
            else if int (length (nodes g)) smod wordSize g = 0
            then (case Grow h (append_node h g n) of (h', g') \<Rightarrow> Inr (h', g', None))
            else Inr (h, append_node h g n, None))
      else Inr (h, append_node h g n, None))"

subsection \<open>Graph: connection and deletion\<close>

fun locate_labels :: "ADIGraph \<Rightarrow> string list \<Rightarrow> panic + Locator list" where
  "locate_labels g [] = Inr []"
| "locate_labels g (v # vs) =
     (case GetLocatorsByLabel g v of
        Inl p \<Rightarrow> Inl p
      | Inr (loc, err) \<Rightarrow>
          (case locate_labels g vs of
             Inl p \<Rightarrow> Inl p
           | Inr locations \<Rightarrow> Inr (if err = None then loc # locations else locations)))"

fun add_each :: "Box \<Rightarrow> Locator list \<Rightarrow> panic + Box" where
  "add_each s [] = Inr s"
| "add_each s (v # vs) =
     (case AddEdges s [v] of Inl p \<Rightarrow> Inl p | Inr s' \<Rightarrow> add_each s' vs)"

definition Connect :: "heap \<Rightarrow> ADIGraph \<Rightarrow> string \<Rightarrow> string list \<Rightarrow> panic + (heap \<times> go_error option)" where
  "Connect h g l neighbors =
     (case GetByLabel g l of
        Inl p \<Rightarrow> Inl p
      | Inr (Inl err) \<Rightarrow> Inr (h, Some errLabelNotFound)
      | Inr (Inr item) \<Rightarrow>
          (case locate_labels g neighbors of
             Inl p \<Rightarrow> Inl p
           | Inr locations \<Rightarrow>
               (case add_each (h item) locations of
                  Inl p \<Rightarrow> Inl p
                | Inr s' \<Rightarrow> Inr (h(item := s'), None))))"

fun remove_from_all :: "heap \<Rightarrow> addr list \<Rightarrow> Locator \<Rightarrow> panic + heap" where
  "remove_from_all h [] locs = Inr h"
| "remove_from_all h (n # ns) locs =
     (case RemoveEdges (h n) [locs] of
        Inl p \<Rightarrow> Inl p
      | Inr s' \<Rightarrow> remove_from_all (h(n := s')) ns locs)"

text \<open>
  \<open>DeleteByIndex\<close> drops the error of \<open>GetByIndex\<close> and calls \<open>n.Label()\<close> on the node it got:
  on the sentinel that node is nil.
\<close>

definition DeleteByIndex :: "heap \<Rightarrow> ADIGraph \<Rightarrow> int \<Rightarrow> panic + (heap \<times> ADIGraph \<times> go_error option)" where
  "DeleteByIndex h g index =
     (case GetByIndex g index of
        Inl p \<Rightarrow> Inl p
      | Inr (Inl err) \<Rightarrow> Inl NilDereference
      | Inr (Inr n) \<Rightarrow>
          (let g' = g\<lparr>labels := (labels g)(label (h n) \<mapsto> -1)\<rparr>;
               h' = h(n := Delete (h n))
           in case GetLocatorsByIndex g' index of
                Inl p \<Rightarrow> Inl p
              | Inr (locs, err) \<Rightarrow>
                  (case remove_from_all h' (nodes g') locs of
                     Inl p \<Rightarrow> Inl p
                   | Inr h'' \<Rightarrow> Inr (h'', g', None))))"

definition DeleteByLabel :: "heap \<Rightarrow> ADIGraph \<Rightarrow> string \<Rightarrow> panic + (heap \<times> ADIGraph \<times> go_error option)" where
  "DeleteByLabel h g l =
     (case labels g l of
        Some index \<Rightarrow>
          (case DeleteByIndex h g index of
             Inl p \<Rightarrow> Inl p
           | Inr (h', g', err) \<Rightarrow> Inr (h', g', None))
      | None \<Rightarrow> Inr (h, g, Some errLabelNotFound))"

subsection \<open>Neighbor resolution\<close>

text \<open>
  One \<open>lookup\<close> task: \<open>checkbit := 1 << byte(offset)\<close> is an \<open>int\<close>, converted to \<open>byte\<close> for
  the test.  The result is what the task sends on the channel: nothing, or one node.
\<close>

definition lookup :: "ADIGraph \<Rightarrow> int \<Rightarrow> byte \<Rightarrow> int \<Rightarrow> panic + addr list" where
  "lookup g col adi off =
     (let checkbit = push_bit (unat (word_of_int off :: byte)) (1 :: 64 word)
      in if adi AND (ucast checkbit :: byte) \<noteq> 0
         then (case GetByIndex g (col * wordSize g + off) of
                 Inl p \<Rightarrow> Inl p
               | Inr (Inl err) \<Rightarrow> Inr []
               | Inr (Inr node) \<Rightarrow> Inr [node])
         else Inr [])"

fun gather :: "(panic + addr list) list \<Rightarrow> panic + addr list" where
  "gather [] = Inr []"
| "gather (r # rs) =
     (case r of
        Inl p \<Rightarrow> Inl p
      | Inr xs \<Rightarrow> (case gather rs of Inl p \<Rightarrow> Inl p | Inr ys \<Rightarrow> Inr (xs @ ys)))"

text \<open>
  The tasks of one \<open>Neighbors\<close> call, one per column and bit, and what they send, listed in
  the order of the two loops that start them.  A panic in any task ends the process.
\<close>

definition sends :: "heap \<Rightarrow> ADIGraph \<Rightarrow> addr \<Rightarrow> panic + addr list" where
  "sends h g n =
     gather (concat (map (\<lambda>i. map (\<lambda>j. lookup g (int i) (adis (h n) ! i) j) [0..wordSize g - 1])
                         [0..<length (adis (h n))]))"

text \<open>
  The tasks run concurrently, so the channel delivers what they send in an order the
  scheduler picks: \<open>deliver\<close> is that choice, any rearrangement of the list.  The channel
  and the result slice hold \<open>len(g.nodes)\<close> nodes; the tasks that send have pairwise
  different indices, so more sends than that need an index outside the table, for which
  \<open>GetByIndex\<close> panics.
\<close>

definition Neighbors :: "heap \<Rightarrow> ADIGraph \<Rightarrow> (addr list \<Rightarrow> addr list) \<Rightarrow> addr \<Rightarrow> panic + addr list" where
  "Neighbors h g deliver n =
     (case sends h g n of Inl p \<Rightarrow> Inl p | Inr xs \<Rightarrow> Inr (deliver xs))"

definition fair :: "(nat \<Rightarrow> addr list \<Rightarrow> addr list) \<Rightarrow> bool" where
  "fair sched = (\<forall>k xs. mset (sched k xs) = mset xs)"

subsection \<open>Reachability search\<close>

text \<open>
  The loop of \<open>BFS\<close>; \<open>k\<close> counts the calls of \<open>Neighbors\<close> made so far, and the \<open>k\<close>-th call
  gets its delivery order from \<open>sched k\<close>.  The loop need not end: its result is \<open>None\<close> then.
\<close>

partial_function (option) bfs_loop ::
  "heap \<Rightarrow> ADIGraph \<Rightarrow> (nat \<Rightarrow> addr list \<Rightarrow> addr list) \<Rightarrow> Locator \<Rightarrow> nat \<Rightarrow> addr list \<Rightarrow> (panic + bool) option"
where
  "bfs_loop h g sched bLoc k queue =
     (case queue of
        [] \<Rightarrow> Some (Inr False)
      | q # rest \<Rightarrow>
          (case HasEdges (h q) False [bLoc] of
             Inl p \<Rightarrow> Some (Inl p)
           | Inr found \<Rightarrow>
               if found then Some (Inr True)
               else (case Neighbors h g (sched k) q of
                       Inl p \<Rightarrow> Some (Inl p)
                     | Inr items \<Rightarrow> bfs_loop h g sched bLoc (Suc k) (rest @ items))))"

definition BFS :: "heap \<Rightarrow> ADIGraph \<Rightarrow> (nat \<Rightarrow> addr list \<Rightarrow> addr list) \<Rightarrow> addr \<Rightarrow> addr \<Rightarrow> (panic + bool) option" where
  "BFS h g sched a b =
     (case GetLocatorsByLabel g (label (h b)) of
        Inl p \<Rightarrow> Some (Inl p)
      | Inr (bLoc, err) \<Rightarrow>
          (case HasEdges (h a) False [bLoc] of
             Inl p \<Rightarrow> Some (Inl p)
           | Inr found \<Rightarrow>
               if found then Some (Inr True)
               else (case Neighbors h g (sched 0) a of
                       Inl p \<Rightarrow> Some (Inl p)
                     | Inr queue \<Rightarrow> bfs_loop h g sched bLoc 1 queue)))"

subsection \<open>Programs over the public API\<close>

text \<open>
  A caller's program: each \<open>OpAddNode l\<close> is \<open>g.AddNode(NewBox(l))\<close>, which allocates the
  \<open>Box\<close> at the next free address.  A panic ends the run.  \<open>world0 W\<close> is the empty heap
  with the graph of \<open>NewGraph\<close>, its word size set to \<open>W\<close> (\<open>NewGraph\<close> itself sets 8).
\<close>

datatype op =
    OpAddNode string
  | OpConnect string "string list"
  | OpDeleteByIndex int
  | OpDeleteByLabel string

type_synonym world = "heap \<times> addr \<times> ADIGraph"

definition no_box :: Box where
  "no_box = \<lparr>label = [], contents = [], adis = [], deleted = False\<rparr>"

definition world0 :: "int \<Rightarrow> world" where
  "world0 W = (\<lambda>a. no_box, 0, NewGraph\<lparr>wordSize := W\<rparr>)"

fun step :: "world \<Rightarrow> op \<Rightarrow> panic + world" where
  "step (h, free, g) (OpAddNode l) =
     (case AddNode (h(free := NewBox l)) g free of
        Inl p \<Rightarrow> Inl p
      | Inr (h', g', err) \<Rightarrow> Inr (h', Suc free, g'))"
| "step (h, free, g) (OpConnect l ns) =
     (case Connect h g l ns of
        Inl p \<Rightarrow> Inl p
      | Inr (h', err) \<Rightarrow> Inr (h', free, g))"
| "step (h, free, g) (OpDeleteByIndex i) =
     (case DeleteByIndex h g i of
        Inl p \<Rightarrow> Inl p
      | Inr (h', g', err) \<Rightarrow> Inr (h', free, g'))"
| "step (h, free, g) (OpDeleteByLabel l) =
     (case DeleteByLabel h g l of
        Inl p \<Rightarrow> Inl p
      | Inr (h', g', err) \<Rightarrow> Inr (h', free, g'))"

fun run :: "world \<Rightarrow> op list \<Rightarrow> panic + world" where
  "run w [] = Inr w"
| "run w (x # xs) = (case step w x of Inl p \<Rightarrow> Inl p | Inr w' \<Rightarrow> run w' xs)"

subsection \<open>Programs used as inputs\<close>

text \<open>
  The loop of the demonstration program, \<open>graph.AddNode(NewBox(fmt.Sprintf("Node %d", i)))\<close>
  for \<open>i\<close> from 0: its first \<open>k\<close> iterations (up to eighteen).
\<close>

definition node_labels :: "string list" where
  "node_labels =
     [''Node 0'', ''Node 1'', ''Node 2'', ''Node 3'', ''Node 4'', ''Node 5'', ''Node 6'', ''Node 7'',
      ''Node 8'', ''Node 9'', ''Node 10'', ''Node 11'', ''Node 12'', ''Node 13'', ''Node 14'',
      ''Node 15'', ''Node 16'', ''Node 17'']"

definition insertions :: "nat \<Rightarrow> op list" where
  "insertions k = map OpAddNode (take k node_labels)"

definition eighteen :: "op list" where
  "eighteen = insertions 18"

text \<open>The demonstration program up to its call of \<open>BFS\<close>, and the heap and graph it builds.\<close>

definition tree_prog :: "op list" where
  "tree_prog =
     insertions 10 @
     [OpConnect ''Node 0'' [''Node 1'', ''Node 2''],
      OpConnect ''Node 1'' [''Node 3'', ''Node 4''],
      OpConnect ''Node 2'' [''Node 5'', ''Node 6''],
      OpConnect ''Node 3'' [''Node 7'', ''Node 8''],
      OpConnect ''Node 4'' [''Node 9'']]"

definition tree_heap :: heap where
  "tree_heap = fst (projr (run (world0 8) tree_prog))"

definition tree_graph :: ADIGraph where
  "tree_graph = snd (snd (projr (run (world0 8) tree_prog)))"

text \<open>Three nodes, the first two connected to each other.\<close>

definition cycle_prog :: "op list" where
  "cycle_prog =
     [OpAddNode ''a'', OpAddNode ''b'', OpAddNode ''c'',
      OpConnect ''a'' [''b''], OpConnect ''b'' [''a'']]"

definition cycle_heap :: heap where
  "cycle_heap = fst (projr (run (world0 8) cycle_prog))"

definition cycle_graph :: ADIGraph where
  "cycle_graph = snd (snd (projr (run (world0 8) cycle_prog)))"

text \<open>
  Three nodes a, b, c, with a connected to b and c, and b connected to c: the graph in
  which c is then deleted.
\<close>

definition scrub_prog :: "op list" where
  "scrub_prog =
     [OpAddNode ''a'', OpAddNode ''b'', OpAddNode ''c'',
      OpConnect ''a'' [''b'', ''c''], OpConnect ''b'' [''c'']]"

definition scrub_heap :: heap where
  "scrub_heap = fst (projr (run (world0 8) scrub_prog))"

definition scrub_graph :: ADIGraph where
  "scrub_graph = snd (snd (projr (run (world0 8) scrub_prog)))"

subsection \<open>Observations of a run\<close>

text \<open>
  What a caller can see after a run: \<open>Size\<close>, the growth factor, the number of adjacency
  words of each node of the table (\<open>len(node.Edges())\<close>), and \<open>GetByLabel\<close>.
\<close>

definition observe :: "panic + world \<Rightarrow> panic + (int \<times> int \<times> nat list)" where
  "observe r =
     (case r of
        Inl p \<Rightarrow> Inl p
      | Inr (h, free, g) \<Rightarrow> Inr (Size g, growthFactor g, map (\<lambda>a. length (adis (h a))) (nodes g)))"

definition growth_of :: "panic + world \<Rightarrow> panic + (int \<times> int)" where
  "growth_of r =
     (case r of Inl p \<Rightarrow> Inl p | Inr (h, free, g) \<Rightarrow> Inr (Size g, growthFactor g))"

definition lookup_after :: "panic + world \<Rightarrow> string \<Rightarrow> panic + (go_error + addr)" where
  "lookup_after r l = (case r of Inl p \<Rightarrow> Inl p | Inr (h, free, g) \<Rightarrow> GetByLabel g l)"

subsection \<open>Invariants of a run\<close>

text \<open>
  \<open>grows\<close>: the table length before the append is a positive multiple of the word size.
  \<open>shaped\<close>: the table holds the allocated addresses in order, and the growth factor
  counts the positive multiples of the word size below the table length.
  \<open>word_counts\<close>: a node holds the two words of \<open>NewBox\<close> and one more for each growth
  step since it was appended.
  \<open>labels_valid\<close>: the label index maps to the sentinel or into the table.
  \<open>bits_in_range\<close>: every set bit of a node stands for an index of the table.
\<close>

definition grows :: "ADIGraph \<Rightarrow> bool" where
  "grows g = (0 < length (nodes g) \<and> int (length (nodes g)) mod wordSize g = 0)"

definition shaped :: "int \<Rightarrow> world \<Rightarrow> bool" where
  "shaped W w =
     (case w of (h, free, g) \<Rightarrow>
        wordSize g = W \<and> nodes g = [0..<free] \<and> growthFactor g = int ((free - 1) div nat W))"

definition word_counts :: "int \<Rightarrow> world \<Rightarrow> bool" where
  "word_counts W w =
     (case w of (h, free, g) \<Rightarrow>
        \<forall>a<free. length (adis (h a)) = 2 + (free - 1) div nat W - (a - 1) div nat W)"

definition labels_valid :: "ADIGraph \<Rightarrow> bool" where
  "labels_valid g = (\<forall>l i. labels g l = Some i \<longrightarrow> i = - 1 \<or> (0 \<le> i \<and> i < Size g))"

definition bits_in_range :: "ADIGraph \<Rightarrow> Box \<Rightarrow> bool" where
  "bits_in_range g s =
     (\<forall>c<length (adis s). \<forall>b. bit (adis s ! c) b \<longrightarrow>
        int b < wordSize g \<and> int c * wordSize g + int b < Size g)"

definition sound :: "int \<Rightarrow> world \<Rightarrow> bool" where
  "sound W w =
     (case w of (h, free, g) \<Rightarrow>
        shaped W (h, free, g) \<and> labels_valid g \<and> (\<forall>a. bits_in_range g (h a)))"

text \<open>
  \<open>leads h g bLoc p\<close>: each node of the path \<open>p\<close> is sent by the scan of its predecessor,
  and the last one has the edge \<open>bLoc\<close>.
\<close>

fun leads :: "heap \<Rightarrow> ADIGraph \<Rightarrow> Locator \<Rightarrow> addr list \<Rightarrow> bool" where
  "leads h g bLoc [] = False"
| "leads h g bLoc [x] = (HasEdges (h x) False [bLoc] = Inr True)"
| "leads h g bLoc (x # y # p) =
     ((\<exists>ns. sends h g x = Inr ns \<and> y \<in> set ns) \<and> leads h g bLoc (y # p))"

section \<open>Properties\<close>

subsection \<open>Go division and byte arithmetic\<close>

lemma go_div_nonneg: "0 \<le> (i::int) \<Longrightarrow> 0 < w \<Longrightarrow> i sdiv w = i div w"
  by (simp add: signed_divide_int_def sgn_if)

lemma go_mod_nonneg: "0 \<le> (i::int) \<Longrightarrow> 0 < w \<Longrightarrow> i smod w = i mod w"
  by (simp add: signed_modulo_int_def sgn_if)

lemma pow2_byte_inj:
  assumes "(2::byte) ^ m = 2 ^ n" "m < 8" "n < 8"
  shows "m = n"
proof -
  from \<open>m < 8\<close> have "bit ((2::byte) ^ m) m" by (simp add: bit_exp_iff)
  with assms(1) have "bit ((2::byte) ^ n) m" by simp
  then show ?thesis by (simp add: bit_exp_iff)
qed

lemma bit_pow2_byte: "bit ((2::byte) ^ k) b \<longleftrightarrow> b = k \<and> k < 8"
  by (auto simp: bit_exp_iff)

lemma shift_count_small:
  assumes "0 \<le> (r::int)" "r < 8"
  shows "unat (word_of_int r :: byte) = nat r"
  using assms by (simp add: unat_eq_nat_uint word_of_int_inverse take_bit_int_eq_self)

lemma checkbit_byte:
  assumes "0 \<le> (j::int)" "j < 8"
  shows "(ucast (push_bit (unat (word_of_int j :: byte)) (1 :: 64 word)) :: byte) = 2 ^ nat j"
proof -
  have k: "nat j < 8" using assms by linarith
  have "(ucast ((2 :: 64 word) ^ nat j) :: byte) = 2 ^ nat j"
  proof (rule bit_word_eqI)
    fix n assume "n < LENGTH(8)"
    then show "bit (ucast ((2 :: 64 word) ^ nat j) :: byte) n = bit ((2::byte) ^ nat j) n"
      using k by (auto simp: bit_ucast_iff bit_exp_iff)
  qed
  then show ?thesis using assms by (simp add: shift_count_small push_bit_eq_mult)
qed

lemma byte_test_bit: "((adi::byte) AND 2 ^ k \<noteq> 0) \<longleftrightarrow> bit adi k"
  by (simp add: and_exp_eq_0_iff_not_bit)

lemma scrubbed_word: "((x::byte) AND NOT m) AND m = 0"
  by (simp add: and.assoc)

lemma growth_count:
  fixes k W :: nat
  assumes "0 < W"
  shows "(k - 1) div W + (if 0 < k \<and> k mod W = 0 then 1 else 0) = k div W"
proof (cases "0 < k \<and> k mod W = 0")
  case True
  then have "W dvd k" by (simp add: mod_eq_0_iff_dvd)
  then obtain q where q: "k = W * q" by (auto elim: dvdE)
  with True have "0 < q" by (cases q) auto
  then obtain q' where q': "q = Suc q'" by (cases q) auto
  from assms obtain r where r: "W = Suc r" by (cases W) auto
  have "k - 1 = r + q' * W" using q q' r by simp
  then have "(k - 1) div W = r div W + q'" using assms by (simp only: div_mult_self3) simp
  then have "(k - 1) div W = q'" using r by simp
  with q q' assms True show ?thesis by simp
next
  case False
  show ?thesis
  proof (cases k)
    case 0
    then show ?thesis by simp
  next
    case (Suc j)
    with False have "Suc j mod W \<noteq> 0" by simp
    then have "Suc j div W = j div W" by (simp add: div_Suc)
    with Suc False show ?thesis by simp
  qed
qed

lemma index_of_position:
  assumes "0 < (W::int)" "0 \<le> i"
  shows "i div W = int c \<and> nat (i mod W) = b \<longleftrightarrow> i = int c * W + int b \<and> int b < W"
proof
  assume a: "i div W = int c \<and> nat (i mod W) = b"
  have m: "0 \<le> i mod W" "i mod W < W" using assms(1) by simp_all
  have "i = W * (i div W) + i mod W" by simp
  with a m show "i = int c * W + int b \<and> int b < W" by (metis mult.commute nat_0_le nat_less_iff)
next
  assume a: "i = int c * W + int b \<and> int b < W"
  then have "i div W = int c" "i mod W = int b" using assms(1) by simp_all
  then show "i div W = int c \<and> nat (i mod W) = b" by simp
qed

lemma positions_nat:
  assumes "0 < (W::int)"
  shows "{f (nat (int c * W + j)) | c j. c < n \<and> 0 \<le> j \<and> j < W \<and> P c (nat j)} =
         {f (c * nat W + b) | c b. c < n \<and> b < nat W \<and> P c b}"
    (is "?A = ?B")
proof (intro set_eqI iffI)
  fix x assume "x \<in> ?A"
  then obtain c j where cj: "x = f (nat (int c * W + j))" "c < n" "0 \<le> j" "j < W" "P c (nat j)" by blast
  have "nat (int c * W + j) = c * nat W + nat j"
    using cj(3) assms by (simp add: nat_add_distrib nat_mult_distrib)
  moreover have "nat j < nat W" using cj(3,4) by simp
  ultimately have "x = f (c * nat W + nat j) \<and> c < n \<and> nat j < nat W \<and> P c (nat j)"
    using cj by simp
  then show "x \<in> ?B" by blast
next
  fix x assume "x \<in> ?B"
  then obtain c b where cb: "x = f (c * nat W + b)" "c < n" "b < nat W" "P c b" by blast
  have "nat (int c * W + int b) = c * nat W + b"
    using assms by (simp add: nat_add_distrib nat_mult_distrib)
  moreover have "0 \<le> int b" "int b < W" "P c (nat (int b))" using cb(3,4) by simp_all
  ultimately have "x = f (nat (int c * W + int b)) \<and> c < n \<and> 0 \<le> int b \<and> int b < W
      \<and> P c (nat (int b))"
    using cb(1,2) by simp
  then show "x \<in> ?A" by blast
qed

subsection \<open>Running programs\<close>

lemma run_append:
  "run w (xs @ ys) = (case run w xs of Inl p \<Rightarrow> Inl p | Inr w' \<Rightarrow> run w' ys)"
  by (induction xs arbitrary: w) (auto split: sum.splits)

lemma run_invariant:
  assumes "\<And>w x w'. P w \<Longrightarrow> step w x = Inr w' \<Longrightarrow> P w'"
  shows "P w \<Longrightarrow> run w xs = Inr w' \<Longrightarrow> P w'"
proof (induction xs arbitrary: w)
  case Nil
  then show ?case by simp
next
  case (Cons x xs)
  from Cons.prems(2) obtain w1 where s: "step w x = Inr w1" and r: "run w1 xs = Inr w'"
    by (auto split: sum.splits)
  from assms[OF Cons.prems(1) s] have "P w1" .
  from Cons.IH[OF this r] show ?case .
qed

lemmas run_eval = AddNode_def append_node_def Grow_def NewBox_def
  AddColumn_def world0_def NewGraph_def signed_modulo_int_def signed_divide_int_def
  Connect_def GetByLabel_def GetByIndex_def GetLocatorsByLabel_def GetLocatorsByIndex_def
  DeleteByIndex_def DeleteByLabel_def Delete_def Let_def Size_def insertions_def node_labels_def

subsection \<open>Locators\<close>

lemma GetLocatorsByIndex_nonneg:
  assumes "0 < wordSize g" "wordSize g \<le> 8" "0 \<le> i"
  shows "GetLocatorsByIndex g i =
     Inr (\<lparr>column = i div wordSize g, offset = 2 ^ nat (i mod wordSize g)\<rparr>, None)"
proof -
  have "i mod wordSize g < wordSize g" using assms(1) by simp
  then have r: "0 \<le> i mod wordSize g" "i mod wordSize g < 8"
    using assms by (simp, linarith)
  show ?thesis
    using assms r by (simp add: GetLocatorsByIndex_def go_div_nonneg go_mod_nonneg shift_count_small push_bit_eq_mult)
qed

lemma locator_inj:
  assumes "0 < (W::int)" "W \<le> 8" "0 \<le> i" "0 \<le> j"
    and "i div W = j div W" "(2::byte) ^ nat (i mod W) = 2 ^ nat (j mod W)"
  shows "i = j"
proof -
  have mi: "0 \<le> i mod W" "i mod W < W" and mj: "0 \<le> j mod W" "j mod W < W"
    using assms(1) by simp_all
  have "nat (i mod W) < 8" "nat (j mod W) < 8"
    using mi mj assms(2) by linarith+
  with assms(6) have "nat (i mod W) = nat (j mod W)" by (rule pow2_byte_inj)
  then have "i mod W = j mod W" using mi mj by linarith
  moreover have "i = W * (i div W) + i mod W" "j = W * (j div W) + j mod W" by simp_all
  ultimately show ?thesis using assms(5) by metis
qed

text \<open>
  C9.  For a word size between 1 and 8 (a mask is one byte; \<open>NewGraph\<close> fixes 8) and every
  non-negative index \<open>i\<close>, \<open>GetLocatorsByIndex\<close> succeeds with column \<open>i div W\<close> and mask
  \<open>1 << (i mod W)\<close>; two distinct non-negative indices get distinct (column, mask) pairs;
  and the sentinel \<open>-1\<close> fails with the "deleted" error.
\<close>

theorem GetLocatorsByIndex_locator:
  assumes "0 < wordSize g" "wordSize g \<le> 8" "0 \<le> i"
  shows "GetLocatorsByIndex g i =
           Inr (\<lparr>column = i div wordSize g, offset = push_bit (nat (i mod wordSize g)) 1\<rparr>, None)
       \<and> (\<forall>j. 0 \<le> j \<and> j \<noteq> i \<longrightarrow>
            (\<exists>li lj. GetLocatorsByIndex g i = Inr (li, None) \<and> GetLocatorsByIndex g j = Inr (lj, None)
               \<and> (column li, offset li) \<noteq> (column lj, offset lj)))
       \<and> GetLocatorsByIndex g (- 1) = Inr (\<lparr>column = 0, offset = 0\<rparr>, Some errDeleted)"
proof (intro conjI allI impI)
  show "GetLocatorsByIndex g i =
           Inr (\<lparr>column = i div wordSize g, offset = push_bit (nat (i mod wordSize g)) 1\<rparr>, None)"
    using GetLocatorsByIndex_nonneg[OF assms] by (simp add: push_bit_eq_mult)
next
  fix j assume j: "0 \<le> j \<and> j \<noteq> i"
  have "(i div wordSize g, (2::byte) ^ nat (i mod wordSize g))
          \<noteq> (j div wordSize g, 2 ^ nat (j mod wordSize g))"
    using locator_inj[OF assms(1,2) assms(3), of j] j by auto
  then show "\<exists>li lj. GetLocatorsByIndex g i = Inr (li, None) \<and> GetLocatorsByIndex g j = Inr (lj, None)
               \<and> (column li, offset li) \<noteq> (column lj, offset lj)"
    using GetLocatorsByIndex_nonneg[OF assms] GetLocatorsByIndex_nonneg[OF assms(1,2), of j] j
    by simp
next
  show "GetLocatorsByIndex g (- 1) = Inr (\<lparr>column = 0, offset = 0\<rparr>, Some errDeleted)"
    by (simp add: GetLocatorsByIndex_def)
qed

theorem GetLocatorsByIndex_locator_witness:
  "0 < wordSize NewGraph \<and> wordSize NewGraph \<le> 8 \<and> (0::int) \<le> 9
   \<and> GetLocatorsByIndex NewGraph 9 = Inr (\<lparr>column = 1, offset = 2\<rparr>, None)
   \<and> GetLocatorsByIndex NewGraph 1 = Inr (\<lparr>column = 0, offset = 2\<rparr>, None)
   \<and> GetLocatorsByIndex NewGraph (- 1) = Inr (\<lparr>column = 0, offset = 0\<rparr>, Some errDeleted)"
  using GetLocatorsByIndex_locator[of NewGraph 9]
  by (simp add: NewGraph_def GetLocatorsByIndex_def signed_divide_int_def signed_modulo_int_def)

lemma GetLocatorsByLabel_cases:
  assumes "0 < wordSize g" "wordSize g \<le> 8"
  shows "GetLocatorsByLabel g t =
     (case labels g t of
        None \<Rightarrow> Inr (\<lparr>column = 0, offset = 0\<rparr>, Some errLabelNotFound)
      | Some i \<Rightarrow>
          if i = - 1 then Inr (\<lparr>column = 0, offset = 0\<rparr>, Some errDeleted)
          else if 0 \<le> i
          then Inr (\<lparr>column = i div wordSize g, offset = 2 ^ nat (i mod wordSize g)\<rparr>, None)
          else GetLocatorsByIndex g i)"
  using assms GetLocatorsByIndex_nonneg[of g]
  by (auto simp: GetLocatorsByLabel_def GetLocatorsByIndex_def split: option.splits)

lemma locate_labels_set:
  assumes "0 < wordSize g" "wordSize g \<le> 8"
    and "\<forall>t\<in>set ts. \<forall>i. labels g t = Some i \<longrightarrow> i = - 1 \<or> 0 \<le> i"
  shows "\<exists>locs. locate_labels g ts = Inr locs \<and>
     set locs = {\<lparr>column = i div wordSize g, offset = 2 ^ nat (i mod wordSize g)\<rparr> | t i.
                   t \<in> set ts \<and> labels g t = Some i \<and> 0 \<le> i}"
  using assms(3)
proof (induction ts)
  case Nil
  then show ?case by simp
next
  case (Cons t ts)
  let ?L = "\<lambda>ts. {\<lparr>column = i div wordSize g, offset = 2 ^ nat (i mod wordSize g)\<rparr> | t i.
                   t \<in> set ts \<and> labels g t = Some i \<and> 0 \<le> i}"
  from Cons obtain locs where l: "locate_labels g ts = Inr locs" and s: "set locs = ?L ts"
    by auto
  have split: "?L (t # ts) = {\<lparr>column = i div wordSize g, offset = 2 ^ nat (i mod wordSize g)\<rparr> | i.
                   labels g t = Some i \<and> 0 \<le> i} \<union> ?L ts"
    by auto
  show ?case
  proof (cases "labels g t")
    case None
    then show ?thesis using l s split by (simp add: GetLocatorsByLabel_cases[OF assms(1,2)])
  next
    case (Some i)
    with Cons.prems have "i = - 1 \<or> 0 \<le> i" by simp
    then show ?thesis
      using Some l s split by (auto simp: GetLocatorsByLabel_cases[OF assms(1,2)])
  qed
qed

subsection \<open>Insertion and growth\<close>

lemma fold_AddColumn:
  "distinct ns \<Longrightarrow>
   fold (\<lambda>node h'. h'(node := f (h' node))) ns h = (\<lambda>a. if a \<in> set ns then f (h a) else h a)"
proof (induction ns arbitrary: h)
  case Nil
  then show ?case by simp
next
  case (Cons n ns)
  then show ?case by (auto simp: fun_eq_iff)
qed

lemma AddNode_cases:
  assumes "0 < wordSize g"
  shows "AddNode h g n =
     (if grows g
      then Inr (fst (Grow h (append_node h g n)), snd (Grow h (append_node h g n)), None)
      else Inr (h, append_node h g n, None))"
proof -
  let ?k = "int (length (nodes g))"
  have m: "?k smod wordSize g = ?k mod wordSize g"
    using assms by (simp add: go_mod_nonneg)
  have "wordSize g - 1 < ?k" if z: "?k mod wordSize g = 0" and p: "0 < length (nodes g)"
  proof (rule ccontr)
    assume "\<not> wordSize g - 1 < ?k"
    then have "?k mod wordSize g = ?k" by simp
    with z p show False by simp
  qed
  moreover have "wordSize g - 1 < ?k \<Longrightarrow> 0 < length (nodes g)"
    using assms by linarith
  ultimately show ?thesis
    using assms by (auto simp: AddNode_def grows_def m split: prod.splits)
qed

lemma add_each_fields:
  "add_each s locs = Inr s' \<Longrightarrow>
   length (adis s') = length (adis s) \<and> label s' = label s \<and> deleted s' = deleted s"
  by (induction locs arbitrary: s) (auto split: if_splits sum.splits)

lemma RemoveEdges_single:
  "RemoveEdges s [v] =
     (if 0 \<le> column v \<and> column v < int (length (adis s))
      then Inr (s\<lparr>adis := (adis s)[nat (column v) := (adis s ! nat (column v)) AND NOT (offset v)]\<rparr>)
      else Inl IndexOutOfRange)"
  by simp

lemma remove_from_all_fields:
  "remove_from_all h ns loc = Inr h' \<Longrightarrow>
   \<forall>a. length (adis (h' a)) = length (adis (h a)) \<and> label (h' a) = label (h a)"
  by (induction ns arbitrary: h) (auto split: if_splits sum.splits)

lemma DeleteByIndex_graph:
  assumes "DeleteByIndex h g i = Inr (h', g', e)"
  shows "nodes g' = nodes g \<and> wordSize g' = wordSize g \<and> growthFactor g' = growthFactor g \<and> e = None
     \<and> (\<forall>a. length (adis (h' a)) = length (adis (h a)) \<and> label (h' a) = label (h a))"
  using assms
  by (auto simp: DeleteByIndex_def Let_def Delete_def split: sum.splits prod.splits
           dest!: remove_from_all_fields)

lemma DeleteByLabel_graph:
  assumes "DeleteByLabel h g l = Inr (h', g', e)"
  shows "nodes g' = nodes g \<and> wordSize g' = wordSize g \<and> growthFactor g' = growthFactor g
     \<and> (\<forall>a. length (adis (h' a)) = length (adis (h a)) \<and> label (h' a) = label (h a))"
  using assms
  by (auto simp: DeleteByLabel_def split: option.splits sum.splits prod.splits
           dest!: DeleteByIndex_graph)

lemma Connect_fields:
  assumes "Connect h g l ns = Inr (h', e)"
  shows "\<forall>a. length (adis (h' a)) = length (adis (h a)) \<and> label (h' a) = label (h a)"
  using assms
  by (auto simp: Connect_def split: sum.splits dest!: add_each_fields)

lemma grows_shaped:
  assumes "0 < W" "shaped W (h, free, g)"
  shows "grows g \<longleftrightarrow> 0 < free \<and> free mod nat W = 0"
proof -
  have "int free mod W = 0 \<longleftrightarrow> free mod nat W = 0"
    using assms(1) by (metis int_nat_eq less_le_not_le of_nat_0_eq_iff zmod_int linorder_not_le nless_le) 
  then show ?thesis using assms by (simp add: grows_def shaped_def)
qed

lemma step_shaped:
  assumes "0 < W" "shaped W w" "step w x = Inr w'"
  shows "shaped W w'"
proof -
  obtain h free g where w: "w = (h, free, g)" by (cases w) auto
  show ?thesis
  proof (cases x)
    case (OpAddNode l)
    have W: "wordSize g = W" and n: "nodes g = [0..<free]"
      and gf: "growthFactor g = int ((free - 1) div nat W)"
      using assms(2) w by (simp_all add: shaped_def)
    have c: "(free - 1) div nat W + (if 0 < free \<and> free mod nat W = 0 then 1 else 0) = free div nat W"
      using assms(1) by (intro growth_count) simp
    show ?thesis
      using assms(3) c assms(1) grows_shaped[OF assms(1) assms(2)[unfolded w]]
      by (auto simp: w OpAddNode AddNode_cases W shaped_def n gf Grow_def append_node_def
               split: if_splits)
  next
    case (OpConnect l ns)
    then show ?thesis using assms w by (auto simp: shaped_def split: sum.splits)
  next
    case (OpDeleteByIndex i)
    then show ?thesis
      using assms w by (auto simp: shaped_def split: sum.splits dest!: DeleteByIndex_graph)
  next
    case (OpDeleteByLabel l)
    then show ?thesis
      using assms w by (auto simp: shaped_def split: sum.splits dest!: DeleteByLabel_graph)
  qed
qed

lemma shaped_world0: "shaped W (world0 W)"
  by (simp add: shaped_def world0_def NewGraph_def)

lemma run_shaped:
  assumes "0 < W" "run (world0 W) xs = Inr w"
  shows "shaped W w"
  using run_invariant[where P = "shaped W", OF step_shaped[OF assms(1)] shaped_world0 assms(2)]
  by simp

lemma step_add_total:
  assumes "0 < W" "shaped W w"
  shows "\<exists>h g. step w (OpAddNode l) = Inr (h, Suc (fst (snd w)), g)"
  using assms by (cases w) (auto simp: AddNode_cases shaped_def)

lemma run_adds_total:
  assumes "0 < W"
  shows "\<exists>h g. run (world0 W) (map OpAddNode ls) = Inr (h, length ls, g)"
proof (induction ls rule: rev_induct)
  case Nil
  then show ?case by (simp add: world0_def)
next
  case (snoc l ls)
  then obtain h g where r: "run (world0 W) (map OpAddNode ls) = Inr (h, length ls, g)" by blast
  from step_add_total[OF assms run_shaped[OF assms r], of l]
  show ?case by (auto simp: run_append r)
qed

lemma growth_of_adds:
  assumes "0 < W"
  shows "growth_of (run (world0 W) (map OpAddNode ls)) =
     Inr (int (length ls), int ((length ls - 1) div nat W))"
proof -
  from run_adds_total[OF assms, of ls] obtain h g
    where r: "run (world0 W) (map OpAddNode ls) = Inr (h, length ls, g)" by blast
  from run_shaped[OF assms r] show ?thesis
    by (simp add: growth_of_def r shaped_def Size_def)
qed

text \<open>
  C1 (as amended).  \<open>AddNode\<close> runs the growth step exactly when the table length measured
  before appending the new node is a positive multiple of the word size; so after \<open>k\<close>
  insertions into an empty graph the growth factor is \<open>(k - 1) div W\<close>: with \<open>W = 8\<close> growth
  fires upon the 9th and the 17th insertion, and never upon the first.
\<close>

theorem AddNode_grows_after_full_word:
  assumes "0 < W" "wordSize g = W"
  shows "AddNode h g n =
           (if 0 < Size g \<and> Size g mod W = 0
            then Inr (fst (Grow h (append_node h g n)), snd (Grow h (append_node h g n)), None)
            else Inr (h, append_node h g n, None))
       \<and> growth_of (run (world0 W) (map OpAddNode ls)) =
           Inr (int (length ls), int ((length ls - 1) div nat W))"
  using assms AddNode_cases[of g h n] growth_of_adds[of W ls]
  by (simp add: grows_def Size_def)

theorem AddNode_grows_after_full_word_witness:
  "(0::int) < 8 \<and> wordSize NewGraph = 8
   \<and> AddNode (\<lambda>a. no_box) NewGraph 0 = Inr (\<lambda>a. no_box, append_node (\<lambda>a. no_box) NewGraph 0, None)
   \<and> growth_of (run (world0 8)
        (insertions 9)) = Inr (9, 1)"
proof -
  have l: "length (take 9 node_labels) = 9" by (simp add: node_labels_def)
  from AddNode_grows_after_full_word[of 8 NewGraph "\<lambda>a. no_box" 0 "take 9 node_labels"]
  show ?thesis unfolding insertions_def l by (simp add: NewGraph_def Size_def)
qed

theorem growth_on_eighth_insertion_counterexample:
  "growth_of (run (world0 8)
      (insertions 8)) = Inr (8, 0)
   \<and> growth_of (run (world0 8)
      (insertions 9)) = Inr (9, 1)"
  by (simp add: growth_of_def run_eval)

subsection \<open>Adjacency word counts\<close>

lemma step_word_counts:
  assumes W: "0 < W" and s: "shaped W w" and c: "word_counts W w" and st: "step w x = Inr w'"
  shows "word_counts W w'"
proof -
  obtain h free g where w: "w = (h, free, g)" by (cases w) auto
  obtain h' free' g' where w': "w' = (h', free', g')" by (cases w') auto
  from c w have old: "\<forall>a<free. length (adis (h a)) = 2 + (free - 1) div nat W - (a - 1) div nat W"
    by (simp add: word_counts_def)
  show ?thesis
  proof (cases x)
    case (OpAddNode l)
    let ?h1 = "h(free := NewBox l)"
    let ?g1 = "append_node ?h1 g free"
    from s w have Wg: "wordSize g = W" and n: "nodes g = [0..<free]" by (simp_all add: shaped_def)
    have gc: "(free - 1) div nat W + (if 0 < free \<and> free mod nat W = 0 then 1 else 0) = free div nat W"
      using W by (intro growth_count) simp
    have le: "(a - 1) div nat W \<le> (free - 1) div nat W" if "a < free" for a
      using that by (intro div_le_mono) simp
    from st w w' OpAddNode W Wg have f': "free' = Suc free"
      by (auto simp: AddNode_cases split: if_splits)
    show ?thesis
    proof (cases "grows g")
      case True
      then have gr: "0 < free \<and> free mod nat W = 0" using grows_shaped[OF W s[unfolded w]] by simp
      have n1: "nodes ?g1 = [0..<Suc free]" by (simp add: append_node_def n)
      from st w w' OpAddNode W Wg True
      have "h' = fold (\<lambda>node h'. h'(node := AddColumn (h' node))) (nodes ?g1) ?h1"
        by (simp add: AddNode_cases Grow_def)
      then have h': "h' = (\<lambda>a. if a \<in> set [0..<Suc free] then AddColumn (?h1 a) else ?h1 a)"
        unfolding n1 by (simp only: fold_AddColumn[OF distinct_upt])
      have "length (adis (h' a)) = 2 + (Suc free - 1) div nat W - (a - 1) div nat W"
        if a: "a < Suc free" for a
      proof (cases "a = free")
        case True
        then show ?thesis using gc gr by (simp add: h' AddColumn_def NewBox_def)
      next
        case False
        with a have af: "a < free" by simp
        then have 1: "length (adis (h' a)) = length (adis (h a)) + 1" by (simp add: h' AddColumn_def)
        from old af have 2: "length (adis (h a)) = 2 + (free - 1) div nat W - (a - 1) div nat W" by blast
        from gc gr have 3: "free div nat W = (free - 1) div nat W + 1" by simp
        from 1 2 3 le[OF af] show ?thesis unfolding diff_Suc_1 by linarith
      qed
      then show ?thesis by (simp add: word_counts_def w' f')
    next
      case False
      then have gr: "\<not> (0 < free \<and> free mod nat W = 0)" using grows_shaped[OF W s[unfolded w]] by simp
      from st w w' OpAddNode W Wg False have h': "h' = ?h1"
        by (simp add: AddNode_cases)
      have "length (adis (h' a)) = 2 + (Suc free - 1) div nat W - (a - 1) div nat W"
        if a: "a < Suc free" for a
      proof (cases "a = free")
        case True
        then show ?thesis using gc gr by (simp add: h' NewBox_def)
      next
        case False
        with a have af: "a < free" by simp
        then have 1: "length (adis (h' a)) = length (adis (h a))" by (simp add: h')
        from old af have 2: "length (adis (h a)) = 2 + (free - 1) div nat W - (a - 1) div nat W" by blast
        from gc gr have 3: "free div nat W = (free - 1) div nat W" by simp
        from 1 2 3 show ?thesis unfolding diff_Suc_1 by linarith
      qed
      then show ?thesis by (simp add: word_counts_def w' f')
    qed
  next
    case (OpConnect l ts)
    with st w w' obtain e where "Connect h g l ts = Inr (h', e)" "free' = free"
      by (auto split: sum.splits)
    with Connect_fields old show ?thesis by (simp add: word_counts_def w')
  next
    case (OpDeleteByIndex i)
    with st w w' obtain e where "DeleteByIndex h g i = Inr (h', g', e)" "free' = free"
      by (auto split: sum.splits)
    with DeleteByIndex_graph old show ?thesis by (simp add: word_counts_def w')
  next
    case (OpDeleteByLabel l)
    with st w w' obtain e where "DeleteByLabel h g l = Inr (h', g', e)" "free' = free"
      by (auto split: sum.splits)
    with DeleteByLabel_graph old show ?thesis by (simp add: word_counts_def w')
  qed
qed

lemma step_shaped_word_counts:
  assumes "0 < W" "shaped W w \<and> word_counts W w" "step w x = Inr w'"
  shows "shaped W w' \<and> word_counts W w'"
  using assms step_shaped[of W w x w'] step_word_counts[of W w x w'] by blast

lemma word_counts_world0: "shaped W (world0 W) \<and> word_counts W (world0 W)"
  by (simp add: shaped_world0) (simp add: word_counts_def world0_def)

lemma run_word_counts:
  assumes "0 < W" "run (world0 W) ops = Inr w"
  shows "shaped W w \<and> word_counts W w"
  using run_invariant[where P = "\<lambda>w. shaped W w \<and> word_counts W w",
      OF step_shaped_word_counts[OF assms(1)] word_counts_world0 assms(2)]
  by simp

text \<open>
  C2 (as amended).  At every point of every program of public operations on a new graph
  (nodes made by \<open>NewBox\<close> and inserted by \<open>AddNode\<close>), the nodes that were in the table when
  the first growth step ran, those at indices 0 to 8, hold the same number of adjacency
  words: the two of \<open>NewBox\<close> plus one per growth step, \<open>2 + (Size - 1) div 8\<close>, which is one
  more than \<open>ceil (Size / 8)\<close>.
\<close>

theorem first_nodes_word_count:
  assumes "run (world0 8) ops = Inr (h, free, g)"
  shows "Size g = int free \<and> growthFactor g = int ((free - 1) div 8)
       \<and> (\<forall>i<free. i \<le> 8 \<longrightarrow> length (adis (h (nodes g ! i))) = 2 + (free - 1) div 8)"
proof -
  from run_word_counts[OF _ assms] have s: "shaped 8 (h, free, g)" and c: "word_counts 8 (h, free, g)"
    by simp_all
  have "length (adis (h (nodes g ! i))) = 2 + (free - 1) div 8" if "i < free" "i \<le> 8" for i
  proof -
    from s that have "nodes g ! i = i" by (simp add: shaped_def)
    moreover have "(i - 1) div 8 = 0" using that by simp
    ultimately show ?thesis using c that by (simp add: word_counts_def)
  qed
  with s show ?thesis by (simp add: shaped_def Size_def)
qed

theorem first_nodes_word_count_witness:
  "\<exists>h free g.
     run (world0 8) (insertions 9) =
       Inr (h, free, g)
     \<and> Size g = 9 \<and> growthFactor g = 1 \<and> length (adis (h (nodes g ! 8))) = 3"
proof -
  let ?r = "run (world0 8) (insertions 9)"
  have "\<exists>w. ?r = Inr w" by (simp add: run_eval)
  then obtain h free g where r: "?r = Inr (h, free, g)" by (metis prod_cases3)
  have "growth_of ?r = Inr (9, 1)" by (simp add: growth_of_def run_eval)
  with r have sz: "Size g = 9" by (simp add: growth_of_def)
  from first_nodes_word_count[OF r] sz have "free = 9" by simp
  with first_nodes_word_count[OF r] sz
  have "growthFactor g = 1 \<and> length (adis (h (nodes g ! 8))) = 3" by simp
  with r sz show ?thesis by blast
qed

theorem uniform_word_count_counterexample:
  "observe (run (world0 8) (insertions 1)) = Inr (1, 0, [2])
   \<and> observe (run (world0 8)
        (insertions 10))
       = Inr (10, 1, [3, 3, 3, 3, 3, 3, 3, 3, 3, 2])"
  by (simp add: observe_def run_eval)

subsection \<open>Connection\<close>

lemma AddEdges_single:
  "AddEdges s [v] =
     (if 0 \<le> column v \<and> column v < int (length (adis s))
      then Inr (s\<lparr>adis := (adis s)[nat (column v) := (adis s ! nat (column v)) OR offset v]\<rparr>)
      else Inl IndexOutOfRange)"
  by simp

lemma add_each_columns:
  "add_each s locs = Inr s' \<Longrightarrow> \<forall>v\<in>set locs. 0 \<le> column v \<and> column v < int (length (adis s))"
proof (induction locs arbitrary: s)
  case Nil
  then show ?case by simp
next
  case (Cons v vs)
  from Cons.prems obtain s1 where s1: "AddEdges s [v] = Inr s1" and r: "add_each s1 vs = Inr s'"
    by (auto split: sum.splits)
  from s1 have c: "0 \<le> column v \<and> column v < int (length (adis s))" and l: "length (adis s1) = length (adis s)"
    by (auto simp: AddEdges_single split: if_splits)
  from Cons.IH[OF r] l c show ?case by simp
qed

lemma add_each_total:
  "\<forall>v\<in>set locs. 0 \<le> column v \<and> column v < int (length (adis s)) \<Longrightarrow> \<exists>s'. add_each s locs = Inr s'"
proof (induction locs arbitrary: s)
  case Nil
  then show ?case by simp
next
  case (Cons v vs)
  let ?s1 = "s\<lparr>adis := (adis s)[nat (column v) := (adis s ! nat (column v)) OR offset v]\<rparr>"
  from Cons.prems have s1: "AddEdges s [v] = Inr ?s1" by (simp add: AddEdges_single)
  have "\<forall>v\<in>set vs. 0 \<le> column v \<and> column v < int (length (adis ?s1))" using Cons.prems by simp
  from Cons.IH[OF this] obtain s' where "add_each ?s1 vs = Inr s'" by blast
  with s1 show ?case by (simp del: AddEdges.simps)
qed

lemma add_each_bits:
  "add_each s locs = Inr s' \<Longrightarrow> c < length (adis s) \<Longrightarrow>
   bit (adis s' ! c) b \<longleftrightarrow>
     bit (adis s ! c) b \<or> (\<exists>v\<in>set locs. column v = int c \<and> bit (offset v) b)"
proof (induction locs arbitrary: s)
  case Nil
  then show ?case by simp
next
  case (Cons v vs)
  let ?s1 = "s\<lparr>adis := (adis s)[nat (column v) := (adis s ! nat (column v)) OR offset v]\<rparr>"
  from Cons.prems(1) have cv: "0 \<le> column v" "column v < int (length (adis s))"
    and r: "add_each ?s1 vs = Inr s'"
    by (auto simp: AddEdges_single split: sum.splits if_splits)
  have c1: "c < length (adis ?s1)" using Cons.prems(2) by simp
  have eq: "nat (column v) = c \<longleftrightarrow> column v = int c" using cv by auto
  have "bit (adis ?s1 ! c) b \<longleftrightarrow> bit (adis s ! c) b \<or> (column v = int c \<and> bit (offset v) b)"
    using Cons.prems(2) cv eq by (auto simp: nth_list_update bit_or_iff)
  with Cons.IH[OF r c1] show ?case by auto
qed

lemma add_each_panic: "add_each s locs = Inl p \<Longrightarrow> p = IndexOutOfRange"
  by (induction locs arbitrary: s) (auto split: if_splits sum.splits)

text \<open>What a completed \<open>Connect\<close> has done, and when it completes.\<close>

lemma Connect_absent_source:
  "labels g l = None \<Longrightarrow> Connect h g l ts = Inr (h, Some errLabelNotFound)"
  by (simp add: Connect_def GetByLabel_def)

lemma Connect_effect:
  assumes W: "0 < wordSize g" "wordSize g \<le> 8"
    and src: "GetByLabel g l = Inr (Inr item)"
    and ts: "\<forall>t\<in>set ts. \<forall>i. labels g t = Some i \<longrightarrow> i = - 1 \<or> 0 \<le> i"
  shows "(\<exists>s'. Connect h g l ts = Inr (h(item := s'), None)
            \<and> length (adis s') = length (adis (h item)) \<and> label s' = label (h item)
            \<and> deleted s' = deleted (h item)
            \<and> (\<forall>c<length (adis s'). \<forall>b. bit (adis s' ! c) b \<longleftrightarrow>
                  bit (adis (h item) ! c) b \<or>
                  (\<exists>t\<in>set ts. labels g t = Some (int c * wordSize g + int b) \<and> int b < wordSize g)))
       \<or> (Connect h g l ts = Inl IndexOutOfRange
            \<and> (\<exists>t\<in>set ts. \<exists>i. labels g t = Some i \<and> 0 \<le> i
                  \<and> int (length (adis (h item))) \<le> i div wordSize g))"
proof -
  let ?W = "wordSize g"
  from locate_labels_set[OF W ts] obtain locs where l: "locate_labels g ts = Inr locs"
    and s: "set locs = {\<lparr>column = i div ?W, offset = 2 ^ nat (i mod ?W)\<rparr> | t i.
                   t \<in> set ts \<and> labels g t = Some i \<and> 0 \<le> i}" by blast
  have nonneg: "\<forall>v\<in>set locs. 0 \<le> column v"
    using s W by (auto simp: pos_imp_zdiv_nonneg_iff)
  show ?thesis
  proof (cases "\<forall>v\<in>set locs. column v < int (length (adis (h item)))")
    case True
    with nonneg have "\<forall>v\<in>set locs. 0 \<le> column v \<and> column v < int (length (adis (h item)))" by blast
    from add_each_total[OF this] obtain s' where a: "add_each (h item) locs = Inr s'" by blast
    have c: "Connect h g l ts = Inr (h(item := s'), None)"
      using src l a by (simp add: Connect_def)
    note f = add_each_fields[OF a]
    have "bit (adis s' ! c) b \<longleftrightarrow>
            bit (adis (h item) ! c) b \<or>
            (\<exists>t\<in>set ts. labels g t = Some (int c * ?W + int b) \<and> int b < ?W)"
      if c: "c < length (adis s')" for c b
    proof -
      have k8: "nat (i mod ?W) < 8" for i
      proof -
        have "0 \<le> i mod ?W" "i mod ?W < ?W" using W(1) by simp_all
        with W(2) show ?thesis by linarith
      qed
      have "(\<exists>v\<in>set locs. column v = int c \<and> bit (offset v) b) \<longleftrightarrow>
            (\<exists>t\<in>set ts. \<exists>i. labels g t = Some i \<and> 0 \<le> i \<and> (i div ?W = int c \<and> nat (i mod ?W) = b))"
        (is "?A \<longleftrightarrow> ?B")
      proof
        assume ?A
        then obtain v where v: "v \<in> set locs" "column v = int c" "bit (offset v) b" by blast
        from v(1) obtain t i where ti: "t \<in> set ts" "labels g t = Some i" "0 \<le> i"
          "v = \<lparr>column = i div ?W, offset = 2 ^ nat (i mod ?W)\<rparr>" unfolding s by blast
        from v(2,3) ti(4) have "i div ?W = int c" "nat (i mod ?W) = b"
          by (simp_all add: bit_pow2_byte)
        with ti show ?B by blast
      next
        assume ?B
        then obtain t i where ti: "t \<in> set ts" "labels g t = Some i" "0 \<le> i"
          "i div ?W = int c" "nat (i mod ?W) = b" by blast
        let ?v = "\<lparr>column = i div ?W, offset = 2 ^ nat (i mod ?W)\<rparr> :: Locator"
        have "?v \<in> set locs" unfolding s using ti(1-3) by blast
        moreover have "column ?v = int c" "bit (offset ?v) b"
          using ti(4,5) k8[of i] by (simp_all add: bit_pow2_byte)
        ultimately show ?A by blast
      qed
      also have "\<dots> \<longleftrightarrow> (\<exists>t\<in>set ts. labels g t = Some (int c * ?W + int b) \<and> int b < ?W)"
        (is "?B \<longleftrightarrow> ?C")
      proof
        assume ?B
        then obtain t i where ti: "t \<in> set ts" "labels g t = Some i" "0 \<le> i"
          "i div ?W = int c \<and> nat (i mod ?W) = b" by blast
        from ti(4) index_of_position[OF W(1) ti(3), of c b]
        have "i = int c * ?W + int b \<and> int b < ?W" by blast
        with ti(1,2) show ?C by auto
      next
        assume ?C
        then obtain t where t: "t \<in> set ts" "labels g t = Some (int c * ?W + int b)" "int b < ?W"
          by blast
        have nn: "0 \<le> int c * ?W + int b" using W(1) by simp
        from index_of_position[OF W(1) nn, of c b] t(3)
        have "(int c * ?W + int b) div ?W = int c \<and> nat ((int c * ?W + int b) mod ?W) = b" by blast
        with t(2) nn have "labels g t = Some (int c * ?W + int b) \<and> 0 \<le> int c * ?W + int b
           \<and> ((int c * ?W + int b) div ?W = int c \<and> nat ((int c * ?W + int b) mod ?W) = b)" by blast
        with t(1) show ?B by blast
      qed
      finally show ?thesis using add_each_bits[OF a, of c b] c f by simp
    qed
    with c f show ?thesis by blast
  next
    case False
    then obtain v where v: "v \<in> set locs" "int (length (adis (h item))) \<le> column v" by force
    have "add_each (h item) locs \<noteq> Inr s'" for s'
      using add_each_columns[of "h item" locs s'] v by fastforce
    then have "add_each (h item) locs = Inl IndexOutOfRange"
      using add_each_panic[of "h item" locs] by (cases "add_each (h item) locs") auto
    then have "Connect h g l ts = Inl IndexOutOfRange"
      using src l by (simp add: Connect_def)
    moreover have "\<exists>t\<in>set ts. \<exists>i. labels g t = Some i \<and> 0 \<le> i
                  \<and> int (length (adis (h item))) \<le> i div wordSize g"
    proof -
      from v(1) obtain t i where ti: "t \<in> set ts" "labels g t = Some i" "0 \<le> i"
          "v = \<lparr>column = i div ?W, offset = 2 ^ nat (i mod ?W)\<rparr>" unfolding s by blast
      from v(2) ti(4) have "int (length (adis (h item))) \<le> i div ?W" by simp
      with ti(1-3) show ?thesis by blast
    qed
    ultimately show ?thesis by blast
  qed
qed

lemma Connect_skips_unknown_example:
  "observe (run (world0 8) [OpAddNode ''a'', OpAddNode ''b'', OpAddNode ''c'',
                            OpConnect ''a'' [''b'', ''unknown'', ''c'']]) = Inr (3, 0, [2, 2, 2])
   \<and> (case run (world0 8) [OpAddNode ''a'', OpAddNode ''b'', OpAddNode ''c'',
                            OpConnect ''a'' [''b'', ''unknown'', ''c'']] of
        Inl p \<Rightarrow> False
      | Inr (h, free, g) \<Rightarrow> adis (h 0) = [6, 0] \<and> adis (h 1) = [0, 0] \<and> adis (h 2) = [0, 0])"
  by (simp add: observe_def run_eval)

text \<open>
  C5.  \<open>Connect\<close> is to set the bit of every target that resolves and return no error.
  On a source that holds fewer adjacency words than a resolved target's column needs it
  does not: after eighteen insertions Node 17 holds two words and the Locator of Node 16
  is in column 2, so \<open>AddEdges\<close> indexes past the slice and the call panics.
\<close>

theorem Connect_short_source_panics:
  "observe (run (world0 8) eighteen) =
     Inr (18, 2, [4, 4, 4, 4, 4, 4, 4, 4, 4, 3, 3, 3, 3, 3, 3, 3, 3, 2])
   \<and> run (world0 8) (eighteen @ [OpConnect ''Node 17'' [''Node 16'']]) = Inl IndexOutOfRange"
  by (simp add: observe_def eighteen_def run_eval)

subsection \<open>Deletion\<close>

lemma remove_from_all_result:
  assumes "remove_from_all h ns loc = Inr h'"
  shows "h' = (\<lambda>a. if a \<in> set ns
                   then (h a)\<lparr>adis := (adis (h a))[nat (column loc) :=
                                        (adis (h a) ! nat (column loc)) AND NOT (offset loc)]\<rparr>
                   else h a)
         \<and> (\<forall>a\<in>set ns. 0 \<le> column loc \<and> column loc < int (length (adis (h a))))"
  using assms
proof (induction ns arbitrary: h)
  case Nil
  then show ?case by simp
next
  case (Cons n ns)
  let ?clr = "\<lambda>s. s\<lparr>adis := (adis s)[nat (column loc) := (adis s ! nat (column loc)) AND NOT (offset loc)]\<rparr>"
  from Cons.prems have cv: "0 \<le> column loc" "column loc < int (length (adis (h n)))"
    and r: "remove_from_all (h(n := ?clr (h n))) ns loc = Inr h'"
    by (auto simp: RemoveEdges_single split: sum.splits if_splits)
  have idem: "?clr (?clr (h n)) = ?clr (h n)"
    using cv by (simp add: and.assoc)
  let ?h1 = "h(n := ?clr (h n))"
  from Cons.IH[OF r]
  have A: "h' = (\<lambda>a. if a \<in> set ns then ?clr (?h1 a) else ?h1 a)"
    and B: "\<forall>a\<in>set ns. 0 \<le> column loc \<and> column loc < int (length (adis (?h1 a)))"
    by blast+
  have "h' a = (if a \<in> set (n # ns) then ?clr (h a) else h a)" for a
  proof (cases "a = n")
    case True
    then show ?thesis using A idem by (simp del: Box.simps)
  next
    case False
    then show ?thesis using A by simp
  qed
  then have 1: "h' = (\<lambda>a. if a \<in> set (n # ns) then ?clr (h a) else h a)" by blast
  have 2: "\<forall>a\<in>set (n # ns). 0 \<le> column loc \<and> column loc < int (length (adis (h a)))"
  proof
    fix a assume a: "a \<in> set (n # ns)"
    show "0 \<le> column loc \<and> column loc < int (length (adis (h a)))"
    proof (cases "a = n")
      case True
      then show ?thesis using cv by simp
    next
      case False
      with a B show ?thesis by auto
    qed
  qed
  from 1 2 show ?case by blast
qed

lemma remove_from_all_total:
  "\<forall>a\<in>set ns. 0 \<le> column loc \<and> column loc < int (length (adis (h a))) \<Longrightarrow>
   \<exists>h'. remove_from_all h ns loc = Inr h'"
proof (induction ns arbitrary: h)
  case Nil
  then show ?case by simp
next
  case (Cons n ns)
  let ?s1 = "(h n)\<lparr>adis := (adis (h n))[nat (column loc) := (adis (h n) ! nat (column loc)) AND NOT (offset loc)]\<rparr>"
  from Cons.prems have s1: "RemoveEdges (h n) [loc] = Inr ?s1" by (simp add: RemoveEdges_single)
  have "\<forall>a\<in>set ns. 0 \<le> column loc \<and> column loc < int (length (adis ((h(n := ?s1)) a)))"
    using Cons.prems by simp
  from Cons.IH[OF this] obtain h' where "remove_from_all (h(n := ?s1)) ns loc = Inr h'" by blast
  with s1 show ?case by (simp del: RemoveEdges.simps)
qed

lemma DeleteByIndex_effect:
  assumes W: "0 < wordSize g" "wordSize g \<le> 8"
    and i: "0 \<le> i" "i < Size g"
    and cols: "\<forall>a\<in>set (nodes g). i div wordSize g < int (length (adis (h a)))"
  shows "\<exists>h' loc. DeleteByIndex h g i =
            Inr (h', g\<lparr>labels := (labels g)(label (h (nodes g ! nat i)) \<mapsto> - 1)\<rparr>, None)
       \<and> GetLocatorsByIndex g i = Inr (loc, None)
       \<and> (\<forall>a\<in>set (nodes g). HasEdges (h' a) False [loc] = Inr False)
       \<and> deleted (h' (nodes g ! nat i))"
proof -
  let ?n = "nodes g ! nat i"
  let ?g' = "g\<lparr>labels := (labels g)(label (h ?n) \<mapsto> - 1)\<rparr>"
  let ?h1 = "h(?n := Delete (h ?n))"
  let ?loc = "\<lparr>column = i div wordSize g, offset = 2 ^ nat (i mod wordSize g)\<rparr> :: Locator"
  have gi: "GetByIndex g i = Inr (Inr ?n)"
    using i by (simp add: GetByIndex_def Size_def)
  have loc: "GetLocatorsByIndex g i = Inr (?loc, None)" "GetLocatorsByIndex ?g' i = Inr (?loc, None)"
    using GetLocatorsByIndex_nonneg[of g i] GetLocatorsByIndex_nonneg[of ?g' i] W i by simp_all
  have c0: "0 \<le> i div wordSize g" using W i by (simp add: pos_imp_zdiv_nonneg_iff)
  have "\<forall>a\<in>set (nodes g). 0 \<le> column ?loc \<and> column ?loc < int (length (adis (?h1 a)))"
    using cols c0 by (auto simp: Delete_def)
  from remove_from_all_total[OF this] obtain h' where r: "remove_from_all ?h1 (nodes g) ?loc = Inr h'"
    by blast
  have d: "DeleteByIndex h g i = Inr (h', ?g', None)"
    using gi loc r by (simp add: DeleteByIndex_def Let_def)
  from remove_from_all_result[OF r]
  have h': "h' = (\<lambda>a. if a \<in> set (nodes g)
                   then (?h1 a)\<lparr>adis := (adis (?h1 a))[nat (column ?loc) :=
                                        (adis (?h1 a) ! nat (column ?loc)) AND NOT (offset ?loc)]\<rparr>
                   else ?h1 a)" by blast
  have n_in: "?n \<in> set (nodes g)" using i by (simp add: Size_def)
  have e: "HasEdges (h' a) False [?loc] = Inr False" if a: "a \<in> set (nodes g)" for a
  proof -
    have "i div wordSize g < int (length (adis (?h1 a)))" using cols a by (auto simp: Delete_def)
    then show ?thesis
      using a c0 by (simp add: h' HasEdges_def scrubbed_word del: fun_upd_apply)
  qed
  have "deleted (h' ?n)" using n_in by (simp add: h' Delete_def)
  with d loc e show ?thesis by blast
qed

text \<open>
  C3 (as amended).  In a graph whose word size is 1..8 and whose nodes all hold an adjacency
  word for the column of \<open>x\<close>, deleting a live node \<open>x\<close> by its index or by its label succeeds,
  clears the bit at the Locator of \<open>x\<close> in every node of the table, leaves \<open>Size\<close> unchanged,
  and makes \<open>GetByLabel\<close> of the label of \<open>x\<close> fail with the "deleted" error: the label stays
  in the index, mapped to the sentinel.
\<close>

theorem delete_scrubs_and_marks:
  assumes "0 < wordSize g" "wordSize g \<le> 8"
    and "0 \<le> i" "i < Size g" "x = nodes g ! nat i"
    and "labels g (label (h x)) = Some i"
    and "\<forall>a\<in>set (nodes g). i div wordSize g < int (length (adis (h a)))"
  shows "\<exists>h' g' loc.
           DeleteByIndex h g i = Inr (h', g', None)
         \<and> DeleteByLabel h g (label (h x)) = Inr (h', g', None)
         \<and> GetLocatorsByIndex g i = Inr (loc, None)
         \<and> (\<forall>a\<in>set (nodes g'). HasEdges (h' a) False [loc] = Inr False)
         \<and> GetByLabel g' (label (h x)) = Inr (Inl errDeleted)
         \<and> Size g' = Size g
         \<and> deleted (h' x)"
proof -
  let ?g' = "g\<lparr>labels := (labels g)(label (h x) \<mapsto> - 1)\<rparr>"
  from DeleteByIndex_effect[OF assms(1-4) assms(7)] assms(5)
  obtain h' loc where d: "DeleteByIndex h g i = Inr (h', ?g', None)"
    and l: "GetLocatorsByIndex g i = Inr (loc, None)"
    and e: "\<forall>a\<in>set (nodes g). HasEdges (h' a) False [loc] = Inr False"
    and x: "deleted (h' x)" by auto
  have "DeleteByLabel h g (label (h x)) = Inr (h', ?g', None)"
    using d assms(6) by (simp add: DeleteByLabel_def)
  moreover have "GetByLabel ?g' (label (h x)) = Inr (Inl errDeleted)"
    by (simp add: GetByLabel_def GetByIndex_def)
  moreover have "Size ?g' = Size g" by (simp add: Size_def)
  ultimately show ?thesis using d l e x by (intro exI[of _ h'] exI[of _ ?g'] exI[of _ loc]) simp
qed

lemma scrub_run: "run (world0 8) scrub_prog = Inr (scrub_heap, 3, scrub_graph)"
  by (simp add: scrub_heap_def scrub_graph_def scrub_prog_def run_eval)

lemma scrub_graph_fields:
  "wordSize scrub_graph = 8" "nodes scrub_graph = [0, 1, 2]" "labels scrub_graph ''c'' = Some 2"
  by (simp_all add: scrub_graph_def scrub_prog_def run_eval)

lemma scrub_heap_fields:
  "adis (scrub_heap 0) = [6, 0]" "adis (scrub_heap 1) = [4, 0]" "adis (scrub_heap 2) = [0, 0]"
  "adis (scrub_heap (Suc 0)) = [4, 0]" "label (scrub_heap 2) = ''c''"
  by (simp_all add: scrub_heap_def scrub_prog_def run_eval)

theorem delete_scrubs_and_marks_witness:
  "run (world0 8) scrub_prog = Inr (scrub_heap, 3, scrub_graph)
   \<and> 0 < wordSize scrub_graph \<and> wordSize scrub_graph \<le> 8
   \<and> (0::int) \<le> 2 \<and> 2 < Size scrub_graph
   \<and> labels scrub_graph (label (scrub_heap (nodes scrub_graph ! nat 2))) = Some 2
   \<and> 2 div wordSize scrub_graph < int (length (adis (scrub_heap 0)))
   \<and> 2 div wordSize scrub_graph < int (length (adis (scrub_heap 1)))
   \<and> 2 div wordSize scrub_graph < int (length (adis (scrub_heap 2)))
   \<and> HasEdges (scrub_heap 0) False [\<lparr>column = 0, offset = 4\<rparr>] = Inr True
   \<and> HasEdges (scrub_heap 1) False [\<lparr>column = 0, offset = 4\<rparr>] = Inr True
   \<and> (\<exists>h' g'.
          DeleteByIndex scrub_heap scrub_graph 2 = Inr (h', g', None)
        \<and> DeleteByLabel scrub_heap scrub_graph ''c'' = Inr (h', g', None)
        \<and> GetLocatorsByIndex scrub_graph 2 = Inr (\<lparr>column = 0, offset = 4\<rparr>, None)
        \<and> HasEdges (h' 0) False [\<lparr>column = 0, offset = 4\<rparr>] = Inr False
        \<and> HasEdges (h' 1) False [\<lparr>column = 0, offset = 4\<rparr>] = Inr False
        \<and> HasEdges (h' 2) False [\<lparr>column = 0, offset = 4\<rparr>] = Inr False
        \<and> GetByLabel g' ''c'' = Inr (Inl errDeleted)
        \<and> Size g' = 3
        \<and> deleted (h' 2))"
proof -
  let ?L = "\<lparr>column = 0, offset = 4\<rparr> :: Locator"
  have x: "nodes scrub_graph ! nat 2 = 2" by (simp add: scrub_graph_fields)
  have h: "0 < wordSize scrub_graph" "wordSize scrub_graph \<le> 8" "(0::int) \<le> 2"
    "2 < Size scrub_graph" "(2::nat) = nodes scrub_graph ! nat 2"
    "labels scrub_graph (label (scrub_heap 2)) = Some 2"
    "\<forall>a\<in>set (nodes scrub_graph). 2 div wordSize scrub_graph < int (length (adis (scrub_heap a)))"
    by (simp_all add: scrub_graph_fields scrub_heap_fields Size_def)
  have cols: "2 div wordSize scrub_graph < int (length (adis (scrub_heap 0)))"
    "2 div wordSize scrub_graph < int (length (adis (scrub_heap 1)))"
    "2 div wordSize scrub_graph < int (length (adis (scrub_heap 2)))"
    by (simp_all add: scrub_graph_fields scrub_heap_fields)
  have before: "HasEdges (scrub_heap 0) False [?L] = Inr True"
    "HasEdges (scrub_heap 1) False [?L] = Inr True"
    by (simp_all add: HasEdges_def scrub_heap_fields)
  have loc: "GetLocatorsByIndex scrub_graph 2 = Inr (?L, None)"
    by (simp add: GetLocatorsByIndex_def scrub_graph_fields signed_divide_int_def
          signed_modulo_int_def)
  from delete_scrubs_and_marks[OF h] obtain h' g' and l :: Locator where
    d: "DeleteByIndex scrub_heap scrub_graph 2 = Inr (h', g', None)"
    and dl: "DeleteByLabel scrub_heap scrub_graph (label (scrub_heap 2)) = Inr (h', g', None)"
    and l: "GetLocatorsByIndex scrub_graph 2 = Inr (l, None)"
    and e: "\<forall>a\<in>set (nodes g'). HasEdges (h' a) False [l] = Inr False"
    and gl: "GetByLabel g' (label (scrub_heap 2)) = Inr (Inl errDeleted)"
    and sz: "Size g' = Size scrub_graph"
    and del: "deleted (h' 2)" by blast
  from l loc have ll: "l = ?L" by simp
  from DeleteByIndex_graph[OF d] have n': "nodes g' = [0, 1, 2]" by (simp add: scrub_graph_fields)
  from e have after: "HasEdges (h' 0) False [?L] = Inr False" "HasEdges (h' 1) False [?L] = Inr False"
    "HasEdges (h' 2) False [?L] = Inr False"
    unfolding ll n' by simp_all
  have dl': "DeleteByLabel scrub_heap scrub_graph ''c'' = Inr (h', g', None)"
    using dl by (simp add: scrub_heap_fields)
  have gl': "GetByLabel g' ''c'' = Inr (Inl errDeleted)" using gl by (simp add: scrub_heap_fields)
  have sz': "Size g' = 3" using sz by (simp add: Size_def scrub_graph_fields)
  have ex: "\<exists>h' g'.
          DeleteByIndex scrub_heap scrub_graph 2 = Inr (h', g', None)
        \<and> DeleteByLabel scrub_heap scrub_graph ''c'' = Inr (h', g', None)
        \<and> GetLocatorsByIndex scrub_graph 2 = Inr (?L, None)
        \<and> HasEdges (h' 0) False [?L] = Inr False
        \<and> HasEdges (h' 1) False [?L] = Inr False
        \<and> HasEdges (h' 2) False [?L] = Inr False
        \<and> GetByLabel g' ''c'' = Inr (Inl errDeleted)
        \<and> Size g' = 3
        \<and> deleted (h' 2)"
    using d dl' loc after gl' sz' del by blast
  have lab: "labels scrub_graph (label (scrub_heap (nodes scrub_graph ! nat 2))) = Some 2"
    using h(6) x by simp
  from scrub_run h(1-4) lab cols before ex show ?thesis by (intro conjI)
qed

theorem deleted_label_lookup_counterexample:
  "lookup_after (run (world0 8) [OpAddNode ''x'', OpDeleteByLabel ''x'']) ''x'' = Inr (Inl errDeleted)
   \<and> lookup_after (run (world0 8) [OpAddNode ''x'', OpDeleteByLabel ''x'']) ''x''
       \<noteq> Inr (Inl errLabelNotFound)"
  by (simp add: lookup_after_def run_eval RemoveEdges_single)

text \<open>
  C4.  Deleting the same label twice: the first call leaves the label in the index with the
  sentinel \<open>-1\<close>; the second call finds it, passes \<open>-1\<close> to \<open>DeleteByIndex\<close>, which calls
  \<open>Label\<close> on the nil node that \<open>GetByIndex\<close> returned with its error: the run ends in a panic.
\<close>

theorem DeleteByLabel_twice_panics:
  "growth_of (run (world0 8) [OpAddNode ''a'', OpDeleteByLabel ''a'']) = Inr (1, 0)
   \<and> run (world0 8) [OpAddNode ''a'', OpDeleteByLabel ''a'', OpDeleteByLabel ''a'']
       = Inl NilDereference"
  by (simp add: growth_of_def run_eval RemoveEdges_single)

subsection \<open>Set bits stay inside the node table\<close>

lemma bits_in_range_mono:
  "bits_in_range g s \<Longrightarrow> wordSize g' = wordSize g \<Longrightarrow> Size g \<le> Size g' \<Longrightarrow> bits_in_range g' s"
  by (fastforce simp: bits_in_range_def)

lemma bits_in_range_AddColumn: "bits_in_range g s \<Longrightarrow> bits_in_range g (AddColumn s)"
  by (auto simp: bits_in_range_def AddColumn_def nth_append)

lemma bits_in_range_NewBox: "bits_in_range g (NewBox l)"
  by (auto simp: bits_in_range_def NewBox_def nth_Cons split: nat.splits)

lemma bits_in_range_Delete: "bits_in_range g s \<Longrightarrow> bits_in_range g (Delete s)"
  by (simp add: bits_in_range_def Delete_def)

lemma bits_in_range_clear:
  "bits_in_range g s \<Longrightarrow>
   bits_in_range g (s\<lparr>adis := (adis s)[k := (adis s ! k) AND NOT m]\<rparr>)"
  unfolding bits_in_range_def
proof (intro allI impI)
  fix c b
  assume a: "\<forall>c<length (adis s). \<forall>b. bit (adis s ! c) b \<longrightarrow>
        int b < wordSize g \<and> int c * wordSize g + int b < Size g"
    and c: "c < length (adis (s\<lparr>adis := (adis s)[k := (adis s ! k) AND NOT m]\<rparr>))"
    and b: "bit (adis (s\<lparr>adis := (adis s)[k := (adis s ! k) AND NOT m]\<rparr>) ! c) b"
  from c have c': "c < length (adis s)" by simp
  from b c' have "bit (adis s ! c) b"
    by (cases "c = k") (simp_all add: bit_and_iff)
  with a c' show "int b < wordSize g \<and> int c * wordSize g + int b < Size g" by blast
qed

lemma bits_in_range_fold_AddColumn:
  "\<forall>a. bits_in_range g (h a) \<Longrightarrow>
   \<forall>a. bits_in_range g (fold (\<lambda>node h'. h'(node := AddColumn (h' node))) ns h a)"
  by (induction ns arbitrary: h) (simp_all add: bits_in_range_AddColumn)

lemma DeleteByIndex_result:
  assumes "DeleteByIndex h g i = Inr (h', g', e)"
  shows "\<exists>n (loc::Locator). g' = g\<lparr>labels := (labels g)(label (h n) \<mapsto> - 1)\<rparr> \<and>
     h' = (\<lambda>a. if a \<in> set (nodes g)
               then ((h(n := Delete (h n))) a)\<lparr>adis := (adis ((h(n := Delete (h n))) a))[nat (column loc) :=
                       (adis ((h(n := Delete (h n))) a) ! nat (column loc)) AND NOT (offset loc)]\<rparr>
               else (h(n := Delete (h n))) a)"
proof -
  from assms obtain n where n: "GetByIndex g i = Inr (Inr n)"
    by (auto simp: DeleteByIndex_def split: sum.splits)
  let ?g' = "g\<lparr>labels := (labels g)(label (h n) \<mapsto> - 1)\<rparr>"
  from assms n obtain loc err where "GetLocatorsByIndex ?g' i = Inr (loc, err)"
    and r: "remove_from_all (h(n := Delete (h n))) (nodes g) loc = Inr h'" and g': "g' = ?g'"
    by (auto simp: DeleteByIndex_def Let_def split: sum.splits prod.splits)
  from remove_from_all_result[OF r] g' show ?thesis by blast
qed

lemma step_delete_sound:
  assumes "sound W (h, free, g)" "DeleteByIndex h g i = Inr (h', g', e)"
  shows "sound W (h', free, g')"
proof -
  from DeleteByIndex_result[OF assms(2)] obtain n and loc :: Locator where
    g': "g' = g\<lparr>labels := (labels g)(label (h n) \<mapsto> - 1)\<rparr>" and
    h': "h' = (\<lambda>a. if a \<in> set (nodes g)
               then ((h(n := Delete (h n))) a)\<lparr>adis := (adis ((h(n := Delete (h n))) a))[nat (column loc) :=
                       (adis ((h(n := Delete (h n))) a) ! nat (column loc)) AND NOT (offset loc)]\<rparr>
               else (h(n := Delete (h n))) a)" by blast
  from assms(1) have s: "shaped W (h, free, g)" and l: "labels_valid g"
    and b: "\<forall>a. bits_in_range g (h a)" by (simp_all add: sound_def)
  have 1: "shaped W (h', free, g')" using s by (simp add: shaped_def g')
  have 2: "labels_valid g'" using l by (simp add: labels_valid_def g' Size_def)
  have b1: "bits_in_range g ((h(n := Delete (h n))) a)" for a
    using b by (simp add: bits_in_range_Delete)
  have b2: "bits_in_range g (h' a)" for a
    unfolding h' using b1[of a] bits_in_range_clear[OF b1[of a]] by (simp del: fun_upd_apply)
  have "bits_in_range g' (h' a)" for a
    by (rule bits_in_range_mono[OF b2]) (simp_all add: g' Size_def)
  then have 3: "\<forall>a. bits_in_range g' (h' a)" by blast
  from 1 2 3 show ?thesis by (simp add: sound_def)
qed

lemma step_connect_sound:
  assumes W: "0 < W" "W \<le> 8"
    and "sound W (h, free, g)" "Connect h g l ts = Inr (h', e)"
  shows "sound W (h', free, g)"
proof -
  from assms(3) have s: "shaped W (h, free, g)" and lv: "labels_valid g"
    and b: "\<forall>a. bits_in_range g (h a)" by (simp_all add: sound_def)
  from s have Wg: "wordSize g = W" by (simp add: shaped_def)
  show ?thesis
  proof (cases "GetByLabel g l")
    case (Inl p)
    with assms(4) show ?thesis by (simp add: Connect_def)
  next
    case (Inr r)
    show ?thesis
    proof (cases r)
      case (Inl err)
      with Inr assms(4) have "h' = h" by (simp add: Connect_def)
      with assms(3) show ?thesis by simp
    next
      case (Inr item)
      with \<open>GetByLabel g l = Inr r\<close> have src: "GetByLabel g l = Inr (Inr item)" by simp
      have ts: "\<forall>t\<in>set ts. \<forall>i. labels g t = Some i \<longrightarrow> i = - 1 \<or> 0 \<le> i"
        using lv by (auto simp: labels_valid_def)
      from Connect_effect[OF W[folded Wg] src ts, of h] assms(4)
      obtain s' where h': "h' = h(item := s')" 
        and len: "length (adis s') = length (adis (h item))"
        and bits: "\<forall>c<length (adis s'). \<forall>b. bit (adis s' ! c) b \<longleftrightarrow>
                  bit (adis (h item) ! c) b \<or>
                  (\<exists>t\<in>set ts. labels g t = Some (int c * wordSize g + int b) \<and> int b < wordSize g)"
        by auto
      have "bits_in_range g s'"
        unfolding bits_in_range_def
      proof (intro allI impI)
        fix c b assume c: "c < length (adis s')" and bt: "bit (adis s' ! c) b"
        from bits c bt consider "bit (adis (h item) ! c) b"
          | t where "t \<in> set ts" "labels g t = Some (int c * wordSize g + int b)" "int b < wordSize g"
          by blast
        then show "int b < wordSize g \<and> int c * wordSize g + int b < Size g"
        proof cases
          case 1
          with b c len show ?thesis by (simp add: bits_in_range_def)
        next
          case 2
          from lv 2(2) have "int c * wordSize g + int b = - 1 \<or> int c * wordSize g + int b < Size g"
            by (auto simp: labels_valid_def)
          moreover have "0 \<le> int c * wordSize g + int b" using W Wg by simp
          ultimately show ?thesis using 2(3) by linarith
        qed
      qed
      with b have "\<forall>a. bits_in_range g (h' a)" by (simp add: h')
      with s lv show ?thesis by (simp add: sound_def shaped_def)
    qed
  qed
qed

lemma step_add_sound:
  assumes W: "0 < W" "W \<le> 8"
    and "sound W (h, free, g)" "step (h, free, g) (OpAddNode l) = Inr w'"
  shows "sound W w'"
proof -
  from assms(3) have s: "shaped W (h, free, g)" and lv: "labels_valid g"
    and b: "\<forall>a. bits_in_range g (h a)" by (simp_all add: sound_def)
  from s have Wg: "wordSize g = W" by (simp add: shaped_def)
  let ?h1 = "h(free := NewBox l)"
  let ?g1 = "append_node ?h1 g free"
  have sz: "wordSize ?g1 = wordSize g" "Size g \<le> Size ?g1" "Size ?g1 = Size g + 1"
    by (simp_all add: append_node_def Size_def)
  have lv1: "labels_valid ?g1"
    unfolding labels_valid_def
  proof (intro allI impI)
    fix t i assume t: "labels ?g1 t = Some i"
    show "i = - 1 \<or> (0 \<le> i \<and> i < Size ?g1)"
    proof (cases "t = label (?h1 free)")
      case True
      with t show ?thesis by (simp add: append_node_def Size_def)
    next
      case False
      with t have "labels g t = Some i" by (simp add: append_node_def)
      with lv have "i = - 1 \<or> (0 \<le> i \<and> i < Size g)" by (simp add: labels_valid_def)
      with sz show ?thesis by linarith
    qed
  qed
  have b1: "\<forall>a. bits_in_range ?g1 (?h1 a)"
    using b bits_in_range_mono[OF _ sz(1,2)] by (simp add: bits_in_range_NewBox)
  obtain h2 free2 g2 where w': "w' = (h2, free2, g2)" by (cases w') auto
  from step_shaped[OF W(1) s assms(4)] have s2: "shaped W (h2, free2, g2)" by (simp add: w')
  from assms(4) have cases: "(h2 = ?h1 \<and> g2 = ?g1) \<or>
     (h2 = fst (Grow ?h1 ?g1) \<and> g2 = snd (Grow ?h1 ?g1))"
    using W Wg by (auto simp: w' AddNode_cases split: if_splits)
  then show ?thesis
  proof
    assume "h2 = ?h1 \<and> g2 = ?g1"
    with s2 lv1 b1 show ?thesis by (simp add: sound_def w')
  next
    assume g: "h2 = fst (Grow ?h1 ?g1) \<and> g2 = snd (Grow ?h1 ?g1)"
    then have g2: "g2 = ?g1\<lparr>growthFactor := growthFactor ?g1 + 1\<rparr>" by (simp add: Grow_def)
    have "labels_valid g2" using lv1 by (simp add: labels_valid_def g2 Size_def)
    moreover have "\<forall>a. bits_in_range g2 (h2 a)"
    proof -
      from g have "h2 = fold (\<lambda>node h'. h'(node := AddColumn (h' node))) (nodes ?g1) ?h1"
        by (simp only: Grow_def fst_conv)
      with bits_in_range_fold_AddColumn[OF b1, of "nodes ?g1"]
      have b3: "\<forall>a. bits_in_range ?g1 (h2 a)" by blast
      have "bits_in_range g2 (h2 a)" for a
        by (rule bits_in_range_mono[of ?g1]) (use b3 in \<open>simp_all add: g2 Size_def\<close>)
      then show ?thesis by blast
    qed
    ultimately show ?thesis using s2 by (simp add: sound_def w')
  qed
qed

lemma step_sound:
  assumes W: "0 < W" "W \<le> 8" and "sound W w" "step w x = Inr w'"
  shows "sound W w'"
proof -
  obtain h free g where w: "w = (h, free, g)" by (cases w) auto
  show ?thesis
  proof (cases x)
    case (OpAddNode l)
    with step_add_sound[OF W] assms(3,4) w show ?thesis by simp
  next
    case (OpConnect l ts)
    with assms(4) w obtain h' e where "Connect h g l ts = Inr (h', e)" "w' = (h', free, g)"
      by (auto split: sum.splits)
    with step_connect_sound[OF W] assms(3) w show ?thesis by simp
  next
    case (OpDeleteByIndex i)
    with assms(4) w obtain h' g' e where "DeleteByIndex h g i = Inr (h', g', e)" "w' = (h', free, g')"
      by (auto split: sum.splits)
    with step_delete_sound assms(3) w show ?thesis by simp
  next
    case (OpDeleteByLabel l)
    with assms(4) w obtain h' g' e where d: "DeleteByLabel h g l = Inr (h', g', e)" "w' = (h', free, g')"
      by (auto split: sum.splits)
    show ?thesis
    proof (cases "labels g l")
      case None
      with d assms(3) w show ?thesis by (simp add: DeleteByLabel_def)
    next
      case (Some i)
      with d obtain e' where "DeleteByIndex h g i = Inr (h', g', e')"
        by (auto simp: DeleteByLabel_def split: sum.splits)
      with step_delete_sound assms(3) w d(2) show ?thesis by simp
    qed
  qed
qed

lemma sound_world0: "0 < W \<Longrightarrow> sound W (world0 W)"
  using shaped_world0[of W]
  by (simp add: sound_def world0_def labels_valid_def bits_in_range_def NewGraph_def no_box_def)

lemma run_sound:
  assumes "0 < W" "W \<le> 8" "run (world0 W) ops = Inr w"
  shows "sound W w"
  using run_invariant[where P = "sound W", OF step_sound[OF assms(1,2)] sound_world0[OF assms(1)] assms(3)]
  by simp

lemma run_bits_in_range:
  assumes "run (world0 8) ops = Inr (h, free, g)"
  shows "wordSize g = 8 \<and> (\<forall>a. bits_in_range g (h a))"
  using run_sound[OF _ _ assms] by (simp add: sound_def shaped_def)

lemma lookup_cases:
  assumes "0 < wordSize g" "wordSize g \<le> 8" "0 \<le> j" "j < wordSize g"
  shows "lookup g (int c) adi j =
     (if bit adi (nat j)
      then (if int c * wordSize g + j < Size g
            then Inr [nodes g ! nat (int c * wordSize g + j)] else Inl IndexOutOfRange)
      else Inr [])"
proof -
  have j8: "j < 8" using assms by linarith
  have nn: "0 \<le> int c * wordSize g + j" using assms by simp
  then have "int c * wordSize g + j \<noteq> - 1" by linarith
  then show ?thesis
    unfolding lookup_def Let_def checkbit_byte[OF assms(3) j8] byte_test_bit
    using nn by (simp add: GetByIndex_def Size_def)
qed

lemma gather_Inr:
  "gather rs = Inr ys \<Longrightarrow>
   (\<forall>r\<in>set rs. \<exists>xs. r = Inr xs) \<and> set ys = {x. \<exists>xs. Inr xs \<in> set rs \<and> x \<in> set xs}"
proof (induction rs arbitrary: ys)
  case Nil
  then show ?case by simp
next
  case (Cons r rs)
  from Cons.prems obtain xs zs where r: "r = Inr xs" and g: "gather rs = Inr zs" and ys: "ys = xs @ zs"
    by (auto split: sum.splits)
  from Cons.IH[OF g] r ys show ?case by auto
qed

lemma gather_total:
  "\<forall>r\<in>set rs. \<exists>xs. r = Inr xs \<Longrightarrow> \<exists>ys. gather rs = Inr ys"
  by (induction rs) (auto split: sum.splits)

lemma gather_panic:
  "gather rs = Inl p \<Longrightarrow> Inl p \<in> set rs"
  by (induction rs) (auto split: sum.splits)

lemma tasks_set:
  "set (concat (map (\<lambda>i. map (\<lambda>j. f i j) [0..W - 1]) [0..<n])) =
     {f i j | i j. i < n \<and> 0 \<le> j \<and> j < (W::int)}"
  by auto blast

lemma sends_tasks:
  "sends h g n = gather rs \<and>
   set rs = {lookup g (int c) (adis (h n) ! c) j | c j.
               c < length (adis (h n)) \<and> 0 \<le> j \<and> j < wordSize g}"
  if "rs = concat (map (\<lambda>i. map (\<lambda>j. lookup g (int i) (adis (h n) ! i) j) [0..wordSize g - 1])
                         [0..<length (adis (h n))])"
  unfolding that sends_def
  using tasks_set[of "\<lambda>i j. lookup g (int i) (adis (h n) ! i) j" "wordSize g" "length (adis (h n))"]
  by simp

lemma sends_result:
  assumes W: "0 < wordSize g" "wordSize g \<le> 8" and s: "sends h g n = Inr ys"
  shows "set ys = {nodes g ! nat (int c * wordSize g + j) | c j.
                     c < length (adis (h n)) \<and> 0 \<le> j \<and> j < wordSize g \<and> bit (adis (h n) ! c) (nat j)}
       \<and> (\<forall>c j. c < length (adis (h n)) \<and> 0 \<le> j \<and> j < wordSize g \<and> bit (adis (h n) ! c) (nat j)
              \<longrightarrow> int c * wordSize g + j < Size g)"
proof -
  define rs where "rs = concat (map (\<lambda>i. map (\<lambda>j. lookup g (int i) (adis (h n) ! i) j) [0..wordSize g - 1])
                         [0..<length (adis (h n))])"
  from sends_tasks[where rs=rs and g=g and h=h and n=n, OF rs_def] have sg: "sends h g n = gather rs"
    and rs: "set rs = {lookup g (int c) (adis (h n) ! c) j | c j.
               c < length (adis (h n)) \<and> 0 \<le> j \<and> j < wordSize g}" by blast+
  from gather_Inr[OF s[unfolded sg]]
  have all: "\<forall>r\<in>set rs. \<exists>xs. r = Inr xs"
    and ys: "set ys = {x. \<exists>xs. Inr xs \<in> set rs \<and> x \<in> set xs}" by blast+
  have inr: "int c * wordSize g + j < Size g"
    if "c < length (adis (h n))" "0 \<le> j" "j < wordSize g" "bit (adis (h n) ! c) (nat j)" for c j
  proof -
    from that(1-3) rs have "lookup g (int c) (adis (h n) ! c) j \<in> set rs" by blast
    with all obtain xs where "lookup g (int c) (adis (h n) ! c) j = Inr xs" by blast
    with that(4) show ?thesis
      by (simp add: lookup_cases[OF W that(2,3)] split: if_splits)
  qed
  have "x \<in> set ys \<longleftrightarrow> (\<exists>c j. x = nodes g ! nat (int c * wordSize g + j) \<and>
                     c < length (adis (h n)) \<and> 0 \<le> j \<and> j < wordSize g \<and> bit (adis (h n) ! c) (nat j))"
    (is "?L \<longleftrightarrow> ?R") for x
  proof
    assume ?L
    with ys obtain xs where xs: "Inr xs \<in> set rs" "x \<in> set xs" by blast
    from xs(1) rs obtain c j where cj: "c < length (adis (h n))" "0 \<le> j" "j < wordSize g"
      "Inr xs = lookup g (int c) (adis (h n) ! c) j" by blast
    from cj(4) xs(2) have "bit (adis (h n) ! c) (nat j) \<and> x = nodes g ! nat (int c * wordSize g + j)"
      by (simp add: lookup_cases[OF W cj(2,3)] split: if_splits)
    with cj(1-3) show ?R by blast
  next
    assume ?R
    then obtain c j where cj: "x = nodes g ! nat (int c * wordSize g + j)"
      "c < length (adis (h n))" "0 \<le> j" "j < wordSize g" "bit (adis (h n) ! c) (nat j)" by blast
    from inr[OF cj(2-5)] cj(5)
    have "lookup g (int c) (adis (h n) ! c) j = Inr [x]"
      by (simp add: lookup_cases[OF W cj(3,4)] cj(1))
    moreover from cj(2-4) rs have "lookup g (int c) (adis (h n) ! c) j \<in> set rs" by blast
    ultimately have "Inr [x] \<in> set rs" by simp
    with ys show ?L by auto
  qed
  then have "set ys = {nodes g ! nat (int c * wordSize g + j) | c j.
                     c < length (adis (h n)) \<and> 0 \<le> j \<and> j < wordSize g \<and> bit (adis (h n) ! c) (nat j)}"
    by blast
  with inr show ?thesis by blast
qed

lemma sends_total:
  assumes W: "0 < wordSize g" "wordSize g \<le> 8"
    and r: "\<forall>c j. c < length (adis (h n)) \<and> 0 \<le> j \<and> j < wordSize g \<and> bit (adis (h n) ! c) (nat j)
              \<longrightarrow> int c * wordSize g + j < Size g"
  shows "\<exists>ys. sends h g n = Inr ys"
proof -
  define rs where "rs = concat (map (\<lambda>i. map (\<lambda>j. lookup g (int i) (adis (h n) ! i) j) [0..wordSize g - 1])
                         [0..<length (adis (h n))])"
  from sends_tasks[where rs=rs and g=g and h=h and n=n, OF rs_def] have sg: "sends h g n = gather rs"
    and rs: "set rs = {lookup g (int c) (adis (h n) ! c) j | c j.
               c < length (adis (h n)) \<and> 0 \<le> j \<and> j < wordSize g}" by blast+
  have "\<forall>x\<in>set rs. \<exists>xs. x = Inr xs"
  proof
    fix x assume "x \<in> set rs"
    with rs obtain c j where cj: "c < length (adis (h n))" "0 \<le> j" "j < wordSize g"
      "x = lookup g (int c) (adis (h n) ! c) j" by blast
    from r cj(1-3) have "bit (adis (h n) ! c) (nat j) \<longrightarrow> int c * wordSize g + j < Size g" by blast
    then show "\<exists>xs. x = Inr xs" by (simp add: cj(4) lookup_cases[OF W cj(2,3)])
  qed
  from gather_total[OF this] sg show ?thesis by simp
qed

lemma bits_in_range_sends:
  assumes "wordSize g = 8" "bits_in_range g (h n)"
  shows "\<exists>ys. sends h g n = Inr ys"
proof (rule sends_total[where h=h and n=n and g=g])
  show "\<forall>c j. c < length (adis (h n)) \<and> 0 \<le> j \<and> j < wordSize g \<and> bit (adis (h n) ! c) (nat j)
              \<longrightarrow> int c * wordSize g + j < Size g"
  proof (intro allI impI)
    fix c j
    assume a: "c < length (adis (h n)) \<and> 0 \<le> j \<and> j < wordSize g \<and> bit (adis (h n) ! c) (nat j)"
    with assms(2) have "int c * wordSize g + int (nat j) < Size g"
      unfolding bits_in_range_def by blast
    with a show "int c * wordSize g + j < Size g" by simp
  qed
qed (simp_all add: assms(1))

lemma tree_run: "run (world0 8) tree_prog = Inr (tree_heap, 10, tree_graph)"
  by (simp add: tree_heap_def tree_graph_def tree_prog_def run_eval)

lemma tree_graph_fields:
  "wordSize tree_graph = 8" "nodes tree_graph = [0, 1, 2, 3, 4, 5, 6, 7, 8, 9]"
  "labels tree_graph ''Node 0'' = Some 0" "labels tree_graph ''Node 9'' = Some 9"
  by (simp_all add: tree_graph_def tree_prog_def run_eval)

lemma tree_adis:
  "adis (tree_heap 0) = [6, 0, 0]" "adis (tree_heap 1) = [24, 0, 0]" "adis (tree_heap 2) = [96, 0, 0]"
  "adis (tree_heap 3) = [128, 1, 0]" "adis (tree_heap 4) = [0, 2, 0]" "adis (tree_heap 5) = [0, 0, 0]"
  "adis (tree_heap 6) = [0, 0, 0]" "adis (tree_heap 7) = [0, 0, 0]" "adis (tree_heap 8) = [0, 0, 0]"
  "adis (tree_heap 9) = [0, 0]" "adis (tree_heap (Suc 0)) = [24, 0, 0]"
  by (simp_all add: tree_heap_def tree_prog_def run_eval)

lemma tree_labels:
  "label (tree_heap 0) = ''Node 0''" "label (tree_heap 9) = ''Node 9''"
  by (simp_all add: tree_heap_def tree_prog_def run_eval)

text \<open>
  C10.  In every graph that a program of \<open>AddNode\<close> (of fresh \<open>NewBox\<close> nodes), \<open>Connect\<close>,
  \<open>DeleteByIndex\<close> and \<open>DeleteByLabel\<close> calls builds from \<open>NewGraph\<close>, every set bit, bit \<open>b\<close>
  of word \<open>c\<close>, of a node of the table stands for an index \<open>c * W + b\<close> below \<open>Size\<close>; so no
  task of the bit scan of \<open>Neighbors\<close> reads outside the node table, and \<open>Neighbors\<close> returns.
\<close>

theorem reachable_bits_inside_table:
  assumes "run (world0 8) ops = Inr (h, free, g)"
  shows "(\<forall>a\<in>set (nodes g). \<forall>c<length (adis (h a)). \<forall>b. bit (adis (h a) ! c) b \<longrightarrow>
            int c * wordSize g + int b < Size g)
       \<and> (\<forall>a\<in>set (nodes g). \<forall>c<length (adis (h a)). \<forall>j. 0 \<le> j \<and> j < wordSize g \<longrightarrow>
            lookup g (int c) (adis (h a) ! c) j \<noteq> Inl IndexOutOfRange)
       \<and> (\<forall>a\<in>set (nodes g). \<forall>deliver. \<exists>res. Neighbors h g deliver a = Inr res)"
proof -
  from run_bits_in_range[OF assms] have W: "wordSize g = 8" and b: "\<And>a. bits_in_range g (h a)"
    by simp_all
  have 1: "int c * wordSize g + int b' < Size g"
    if "c < length (adis (h a))" "bit (adis (h a) ! c) b'" for a c b'
    using b[of a] that unfolding bits_in_range_def by blast
  have 2: "lookup g (int c) (adis (h a) ! c) j \<noteq> Inl IndexOutOfRange"
    if "c < length (adis (h a))" "0 \<le> j \<and> j < wordSize g" for a c j
  proof -
    have "bit (adis (h a) ! c) (nat j) \<Longrightarrow> int c * wordSize g + j < Size g"
      using 1[OF that(1), of "nat j"] that(2) by simp
    then show ?thesis
      using that(2) W by (simp add: lookup_cases)
  qed
  have 3: "\<exists>res. Neighbors h g deliver a = Inr res" for a deliver
    using bits_in_range_sends[where h=h and n=a and g=g, OF W b[of a]] by (auto simp: Neighbors_def)
  from 1 2 3 show ?thesis by blast
qed

theorem reachable_bits_inside_table_witness:
  "run (world0 8) tree_prog = Inr (tree_heap, 10, tree_graph)
   \<and> 4 \<in> set (nodes tree_graph) \<and> 1 < length (adis (tree_heap 4)) \<and> bit (adis (tree_heap 4) ! 1) 1
   \<and> int 1 * wordSize tree_graph + int 1 < Size tree_graph
   \<and> lookup tree_graph (int 1) (adis (tree_heap 4) ! 1) 1 \<noteq> Inl IndexOutOfRange"
proof -
  note t = reachable_bits_inside_table[OF tree_run]
  have a: "4 \<in> set (nodes tree_graph)" "1 < length (adis (tree_heap 4))"
    "bit (adis (tree_heap 4) ! 1) 1" "(0::int) \<le> 1 \<and> 1 < wordSize tree_graph"
    by (simp_all add: tree_adis tree_graph_fields)
  from t a(1-3) have "int 1 * wordSize tree_graph + int 1 < Size tree_graph" by blast
  moreover from t a(1,2,4) have "lookup tree_graph (int 1) (adis (tree_heap 4) ! 1) 1 \<noteq> Inl IndexOutOfRange"
    by blast
  ultimately show ?thesis using tree_run a by blast
qed

subsection \<open>Neighbor resolution\<close>

lemma sends_eval:
  "sends h g n =
     gather (concat (map (\<lambda>i. map (\<lambda>j. lookup g (int i) (adis (h n) ! i) j) [0..wordSize g - 1])
                         [0..<length (adis (h n))]))"
  by (simp add: sends_def)

lemma tree_sends:
  "sends tree_heap tree_graph 0 = Inr [1, 2]"
  "sends tree_heap tree_graph 1 = Inr [3, 4]"
  "sends tree_heap tree_graph 2 = Inr [5, 6]"
  "sends tree_heap tree_graph 3 = Inr [7, 8]"
  "sends tree_heap tree_graph 4 = Inr [9]"
  "sends tree_heap tree_graph 5 = Inr []"
  "sends tree_heap tree_graph 6 = Inr []"
  "sends tree_heap tree_graph 7 = Inr []"
  "sends tree_heap tree_graph 8 = Inr []"
  "sends tree_heap tree_graph 9 = Inr []"
  "sends tree_heap tree_graph (Suc 0) = Inr [3, 4]"
  by (simp_all add: tree_adis sends_eval tree_graph_fields lookup_cases upto_rec1 upt_rec Size_def)

text \<open>
  C6.  For a word size of 1..8 and any order in which the channel delivers what the tasks
  send, the nodes \<open>Neighbors\<close> returns are, as a set, exactly the nodes at the indices
  \<open>c * W + b\<close> of the set bits of the adjacency words; it returns whenever those indices are
  in the table, which holds in every graph built from \<open>NewGraph\<close>; and a task whose index
  resolves to the deleted sentinel sends nothing.
\<close>

theorem Neighbors_set_of_bits:
  assumes "0 < wordSize g" "wordSize g \<le> 8" "\<forall>xs. mset (deliver xs) = mset xs"
  shows "(\<forall>res. Neighbors h g deliver n = Inr res \<longrightarrow>
            set res = {nodes g ! (c * nat (wordSize g) + b) | c b.
                         c < length (adis (h n)) \<and> b < nat (wordSize g) \<and> bit (adis (h n) ! c) b})
       \<and> ((\<forall>c b. c < length (adis (h n)) \<and> b < nat (wordSize g) \<and> bit (adis (h n) ! c) b \<longrightarrow>
                  int (c * nat (wordSize g) + b) < Size g)
            \<longrightarrow> (\<exists>res. Neighbors h g deliver n = Inr res))
       \<and> ((\<exists>ops free. run (world0 8) ops = Inr (h, free, g))
            \<longrightarrow> (\<exists>res. Neighbors h g deliver n = Inr res))
       \<and> (\<forall>col adi off e. GetByIndex g (col * wordSize g + off) = Inr (Inl e) \<longrightarrow>
            lookup g col adi off = Inr [])"
proof (intro conjI allI impI)
  fix res assume "Neighbors h g deliver n = Inr res"
  then obtain ys where ys: "sends h g n = Inr ys" and res: "res = deliver ys"
    by (auto simp: Neighbors_def split: sum.splits)
  from assms(3) have "set res = set ys" unfolding res by (metis mset_eq_setD)
  also from sends_result[OF assms(1,2) ys]
  have "set ys = {nodes g ! nat (int c * wordSize g + j) | c j.
                     c < length (adis (h n)) \<and> 0 \<le> j \<and> j < wordSize g \<and> bit (adis (h n) ! c) (nat j)}"
    by blast
  also have "\<dots> = {nodes g ! (c * nat (wordSize g) + b) | c b.
                         c < length (adis (h n)) \<and> b < nat (wordSize g) \<and> bit (adis (h n) ! c) b}"
    by (rule positions_nat[OF assms(1), of "\<lambda>i. nodes g ! i" "length (adis (h n))"
          "\<lambda>c b. bit (adis (h n) ! c) b"])
  finally show "set res = {nodes g ! (c * nat (wordSize g) + b) | c b.
                         c < length (adis (h n)) \<and> b < nat (wordSize g) \<and> bit (adis (h n) ! c) b}" .
next
  assume r: "\<forall>c b. c < length (adis (h n)) \<and> b < nat (wordSize g) \<and> bit (adis (h n) ! c) b \<longrightarrow>
                  int (c * nat (wordSize g) + b) < Size g"
  have "\<forall>c j. c < length (adis (h n)) \<and> 0 \<le> j \<and> j < wordSize g \<and> bit (adis (h n) ! c) (nat j)
              \<longrightarrow> int c * wordSize g + j < Size g"
  proof (intro allI impI)
    fix c j
    assume a: "c < length (adis (h n)) \<and> 0 \<le> j \<and> j < wordSize g \<and> bit (adis (h n) ! c) (nat j)"
    then have "nat j < nat (wordSize g)" by simp
    with r a have "int (c * nat (wordSize g) + nat j) < Size g" by blast
    with a assms(1) show "int c * wordSize g + j < Size g" by simp
  qed
  from sends_total[where h=h and n=n and g=g, OF assms(1,2) this] show "\<exists>res. Neighbors h g deliver n = Inr res"
    by (auto simp: Neighbors_def)
next
  assume "\<exists>ops free. run (world0 8) ops = Inr (h, free, g)"
  then obtain ops free where "run (world0 8) ops = Inr (h, free, g)" by blast
  from run_bits_in_range[OF this] have "wordSize g = 8" "bits_in_range g (h n)" by simp_all
  from bits_in_range_sends[where h=h and n=n and g=g, OF this] show "\<exists>res. Neighbors h g deliver n = Inr res"
    by (auto simp: Neighbors_def)
next
  fix col adi off e assume "GetByIndex g (col * wordSize g + off) = Inr (Inl e)"
  then show "lookup g col adi off = Inr []" by (simp add: lookup_def Let_def)
qed

theorem Neighbors_set_of_bits_witness:
  "0 < wordSize tree_graph \<and> wordSize tree_graph \<le> 8
   \<and> Neighbors tree_heap tree_graph rev 3 = Inr [8, 7]
   \<and> set [8, 7] = {nodes tree_graph ! (c * nat (wordSize tree_graph) + b) | c b.
                         c < length (adis (tree_heap 3)) \<and> b < nat (wordSize tree_graph)
                         \<and> bit (adis (tree_heap 3) ! c) b}"
proof -
  have h: "0 < wordSize tree_graph" "wordSize tree_graph \<le> 8" "\<forall>xs. mset (rev xs) = mset xs"
    by (simp_all add: tree_graph_fields)
  have n: "Neighbors tree_heap tree_graph rev 3 = Inr [8, 7]"
    by (simp add: Neighbors_def tree_sends)
  have e: "set [8, 7] = {nodes tree_graph ! (c * nat (wordSize tree_graph) + b) | c b.
                         c < length (adis (tree_heap 3)) \<and> b < nat (wordSize tree_graph)
                         \<and> bit (adis (tree_heap 3) ! c) b}"
    by (rule mp[OF spec[OF conjunct1[OF Neighbors_set_of_bits[OF h, of tree_heap 3]]] n])
  from h(1) h(2) n e show ?thesis by (intro conjI)
qed

subsection \<open>Reachability search\<close>

lemma fair_set: "fair sched \<Longrightarrow> set (sched k xs) = set xs"
  by (metis fair_def mset_eq_setD)

lemma fair_Nil: "fair sched \<Longrightarrow> sched k [] = []"
  by (metis fair_def mset_zero_iff)

lemma bfs_loop_reaches_front:
  assumes f: "fair sched"
    and safe: "\<forall>x\<in>S. (\<exists>r. HasEdges (h x) False [bLoc] = Inr r) \<and> (\<exists>ns. sends h g x = Inr ns \<and> set ns \<subseteq> S)"
    and front: "\<And>k rest. set rest \<subseteq> S \<Longrightarrow> bfs_loop h g sched bLoc k (x # rest) = Some (Inr True)"
  shows "set (pre @ x # post) \<subseteq> S \<Longrightarrow>
         bfs_loop h g sched bLoc k (pre @ x # post) = Some (Inr True)"
proof (induction pre arbitrary: post k)
  case Nil
  with front[of post k] show ?case by simp
next
  case (Cons q pre)
  from Cons.prems have qS: "q \<in> S" and rS: "set (pre @ x # post) \<subseteq> S" by simp_all
  from safe qS obtain r ns where r: "HasEdges (h q) False [bLoc] = Inr r"
    and ns: "sends h g q = Inr ns" "set ns \<subseteq> S" by blast
  show ?case
  proof (cases r)
    case True
    with r show ?thesis by (subst bfs_loop.simps) simp
  next
    case False
    have N: "Neighbors h g (sched k) q = Inr (sched k ns)" using ns(1) by (simp add: Neighbors_def)
    have step: "bfs_loop h g sched bLoc k ((q # pre) @ x # post) =
                bfs_loop h g sched bLoc (Suc k) (pre @ x # (post @ sched k ns))"
      using r False N by (subst bfs_loop.simps) simp
    have "set (pre @ x # (post @ sched k ns)) \<subseteq> S"
      using rS ns(2) fair_set[OF f] by auto
    from Cons.IH[OF this] step show ?thesis by simp
  qed
qed

lemma bfs_loop_finds:
  assumes f: "fair sched"
    and safe: "\<forall>x\<in>S. (\<exists>r. HasEdges (h x) False [bLoc] = Inr r) \<and> (\<exists>ns. sends h g x = Inr ns \<and> set ns \<subseteq> S)"
  shows "leads h g bLoc (x # p) \<Longrightarrow> set queue \<subseteq> S \<Longrightarrow> x \<in> set queue \<Longrightarrow>
         bfs_loop h g sched bLoc k queue = Some (Inr True)"
proof (induction p arbitrary: x queue k)
  case Nil
  then have hit: "HasEdges (h x) False [bLoc] = Inr True" by simp
  have front: "bfs_loop h g sched bLoc k' (x # rest) = Some (Inr True)" for k' rest
    using hit by (subst bfs_loop.simps) simp
  from Nil.prems(3) obtain pre post where q: "queue = pre @ x # post" by (meson split_list)
  from bfs_loop_reaches_front[OF f safe front, of pre post k] Nil.prems(2) q show ?case by simp
next
  case (Cons y p)
  from Cons.prems(1) obtain ns where ns: "sends h g x = Inr ns" "y \<in> set ns"
    and l: "leads h g bLoc (y # p)" by auto
  from Cons.prems(2,3) have xS: "x \<in> S" by blast
  with safe ns(1) obtain r where r: "HasEdges (h x) False [bLoc] = Inr r" and nS: "set ns \<subseteq> S"
    by fastforce
  have front: "bfs_loop h g sched bLoc k' (x # rest) = Some (Inr True)" if rest: "set rest \<subseteq> S"
    for k' rest
  proof (cases r)
    case True
    with r show ?thesis by (subst bfs_loop.simps) simp
  next
    case False
    have N: "Neighbors h g (sched k') x = Inr (sched k' ns)" using ns(1) by (simp add: Neighbors_def)
    have step: "bfs_loop h g sched bLoc k' (x # rest) =
                bfs_loop h g sched bLoc (Suc k') (rest @ sched k' ns)"
      using r False N by (subst bfs_loop.simps) simp
    have "set (rest @ sched k' ns) \<subseteq> S" "y \<in> set (rest @ sched k' ns)"
      using rest nS ns(2) fair_set[OF f] by auto
    from Cons.IH[OF l this] step show ?thesis by simp
  qed
  from Cons.prems(3) obtain pre post where q: "queue = pre @ x # post" by (meson split_list)
  from bfs_loop_reaches_front[OF f safe front, of pre post k] Cons.prems(2) q show ?case by simp
qed

lemma bfs_loop_never_returns:
  assumes "bfs_loop h g sched bLoc k queue = Some y"
    and "fair sched"
    and "\<forall>x\<in>S. HasEdges (h x) False [bLoc] = Inr False
            \<and> (\<exists>ns. sends h g x = Inr ns \<and> ns \<noteq> [] \<and> set ns \<subseteq> S)"
    and "queue \<noteq> []" "set queue \<subseteq> S"
  shows False
  using assms(2-)
proof (induction h g sched bLoc k queue y rule: bfs_loop.raw_induct)
  case (1 bfs_loop h g sched bLoc k queue y)
  from "1.prems"(3) obtain q rest where q: "queue = q # rest" by (cases queue) auto
  with "1.prems"(4) have qS: "q \<in> S" and rS: "set rest \<subseteq> S" by simp_all
  from "1.prems"(2) qS obtain ns where e: "HasEdges (h q) False [bLoc] = Inr False"
    and ns: "sends h g q = Inr ns" "ns \<noteq> []" "set ns \<subseteq> S" by blast
  have N: "Neighbors h g (sched k) q = Inr (sched k ns)" using ns(1) by (simp add: Neighbors_def)
  from "1.hyps" have next_call: "bfs_loop h g sched bLoc (Suc k) (rest @ sched k ns) = Some y"
    by (simp add: q e N)
  have "set (sched k ns) = set ns" using fair_set[OF "1.prems"(1)] by simp
  with ns(2,3) rS have "rest @ sched k ns \<noteq> []" "set (rest @ sched k ns) \<subseteq> S" by auto
  from "1.IH"[OF next_call "1.prems"(1,2) this] show ?case .
qed fact

lemma bfs_loop_diverges:
  assumes "fair sched"
    and "\<forall>x\<in>S. HasEdges (h x) False [bLoc] = Inr False
            \<and> (\<exists>ns. sends h g x = Inr ns \<and> ns \<noteq> [] \<and> set ns \<subseteq> S)"
    and "queue \<noteq> []" "set queue \<subseteq> S"
  shows "bfs_loop h g sched bLoc k queue = None"
  using bfs_loop_never_returns[OF _ assms] by (cases "bfs_loop h g sched bLoc k queue") auto

lemma tree_locators:
  "GetLocatorsByLabel tree_graph (label (tree_heap 9)) = Inr (\<lparr>column = 1, offset = 2\<rparr>, None)"
  "GetLocatorsByLabel tree_graph (label (tree_heap 0)) = Inr (\<lparr>column = 0, offset = 1\<rparr>, None)"
  by (simp_all add: tree_labels tree_graph_fields GetLocatorsByLabel_def
        GetLocatorsByIndex_def signed_divide_int_def signed_modulo_int_def)

lemma tree_hits:
  "HasEdges (tree_heap 0) False [\<lparr>column = 1, offset = 2\<rparr>] = Inr False"
  "HasEdges (tree_heap 1) False [\<lparr>column = 1, offset = 2\<rparr>] = Inr False"
  "HasEdges (tree_heap 2) False [\<lparr>column = 1, offset = 2\<rparr>] = Inr False"
  "HasEdges (tree_heap 3) False [\<lparr>column = 1, offset = 2\<rparr>] = Inr False"
  "HasEdges (tree_heap 4) False [\<lparr>column = 1, offset = 2\<rparr>] = Inr True"
  "HasEdges (tree_heap 5) False [\<lparr>column = 1, offset = 2\<rparr>] = Inr False"
  "HasEdges (tree_heap 6) False [\<lparr>column = 1, offset = 2\<rparr>] = Inr False"
  "HasEdges (tree_heap 7) False [\<lparr>column = 1, offset = 2\<rparr>] = Inr False"
  "HasEdges (tree_heap 8) False [\<lparr>column = 1, offset = 2\<rparr>] = Inr False"
  "HasEdges (tree_heap 9) False [\<lparr>column = 1, offset = 2\<rparr>] = Inr False"
  "HasEdges (tree_heap 9) False [\<lparr>column = 0, offset = 1\<rparr>] = Inr False"
  "HasEdges (tree_heap (Suc 0)) False [\<lparr>column = 1, offset = 2\<rparr>] = Inr False"
  by (simp_all add: HasEdges_def tree_adis)

text \<open>
  C7.  The graph of the demonstration program: ten nodes, labelled Node 0 to Node 9,
  inserted into a new graph, then connected 0 to 1 and 2, 1 to 3 and 4, 2 to 5 and 6, 3 to 7
  and 8, 4 to 9.  Whatever order the channel delivers neighbors in, \<open>BFS\<close> from node 0 to
  node 9 returns true and \<open>BFS\<close> from node 9 to node 0 returns false.
\<close>

theorem BFS_demo_tree:
  assumes "fair sched"
  shows "run (world0 8) tree_prog = Inr (tree_heap, 10, tree_graph)
       \<and> GetByLabel tree_graph ''Node 0'' = Inr (Inr 0) \<and> GetByLabel tree_graph ''Node 9'' = Inr (Inr 9)
       \<and> BFS tree_heap tree_graph sched 0 9 = Some (Inr True)
       \<and> BFS tree_heap tree_graph sched 9 0 = Some (Inr False)"
proof -
  let ?L = "\<lparr>column = 1, offset = 2\<rparr> :: Locator"
  let ?S = "set [0, 1, 2, 3, 4, 5, 6, 7, 8, 9 :: nat]"
  have lab: "GetByLabel tree_graph ''Node 0'' = Inr (Inr 0)" "GetByLabel tree_graph ''Node 9'' = Inr (Inr 9)"
    by (simp_all add: GetByLabel_def GetByIndex_def tree_graph_fields)
  have safe: "\<forall>x\<in>?S. (\<exists>r. HasEdges (tree_heap x) False [?L] = Inr r)
                \<and> (\<exists>ns. sends tree_heap tree_graph x = Inr ns \<and> set ns \<subseteq> ?S)"
    by (auto simp: tree_hits tree_sends)
  have path: "leads tree_heap tree_graph ?L [1, 4]"
    by (simp add: tree_sends tree_hits)
  have q: "set (sched 0 [1, 2]) \<subseteq> ?S" "1 \<in> set (sched 0 [1, 2])"
    using fair_set[OF assms, of 0 "[1, 2]"] by simp_all
  have "bfs_loop tree_heap tree_graph sched ?L 1 (sched 0 [1, 2]) = Some (Inr True)"
    by (rule bfs_loop_finds[OF assms safe path q])
  then have t: "BFS tree_heap tree_graph sched 0 9 = Some (Inr True)"
    by (simp add: BFS_def tree_locators tree_hits Neighbors_def tree_sends)
  have "bfs_loop tree_heap tree_graph sched \<lparr>column = 0, offset = 1\<rparr> 1 [] = Some (Inr False)"
    by (subst bfs_loop.simps) simp
  then have f: "BFS tree_heap tree_graph sched 9 0 = Some (Inr False)"
    by (simp add: BFS_def tree_locators tree_hits Neighbors_def tree_sends fair_Nil[OF assms])
  from tree_run lab t f show ?thesis by blast
qed

theorem BFS_demo_tree_witness:
  "fair (\<lambda>k. rev)
   \<and> BFS tree_heap tree_graph (\<lambda>k. rev) 0 9 = Some (Inr True)
   \<and> BFS tree_heap tree_graph (\<lambda>k. rev) 9 0 = Some (Inr False)"
proof -
  have f: "fair (\<lambda>k. rev)" by (simp add: fair_def)
  from BFS_demo_tree[OF f] f show ?thesis by blast
qed

lemma cycle_run: "run (world0 8) cycle_prog = Inr (cycle_heap, 3, cycle_graph)"
  by (simp add: cycle_heap_def cycle_graph_def cycle_prog_def run_eval)

lemma cycle_graph_fields:
  "wordSize cycle_graph = 8" "nodes cycle_graph = [0, 1, 2]" "labels cycle_graph ''c'' = Some 2"
  by (simp_all add: cycle_graph_def cycle_prog_def run_eval)

lemma cycle_heap_fields:
  "adis (cycle_heap 0) = [2, 0]" "adis (cycle_heap 1) = [1, 0]" "adis (cycle_heap 2) = [0, 0]"
  "label (cycle_heap 2) = ''c''" "adis (cycle_heap (Suc 0)) = [1, 0]"
  by (simp_all add: cycle_heap_def cycle_prog_def run_eval)

lemma cycle_sends:
  "sends cycle_heap cycle_graph 0 = Inr [1]"
  "sends cycle_heap cycle_graph 1 = Inr [0]"
  "sends cycle_heap cycle_graph (Suc 0) = Inr [0]"
  by (simp_all add: sends_eval cycle_graph_fields cycle_heap_fields lookup_cases upto_rec1 upt_rec Size_def)

lemma cycle_hits:
  "GetLocatorsByLabel cycle_graph (label (cycle_heap 2)) = Inr (\<lparr>column = 0, offset = 4\<rparr>, None)"
  "HasEdges (cycle_heap 0) False [\<lparr>column = 0, offset = 4\<rparr>] = Inr False"
  "HasEdges (cycle_heap 1) False [\<lparr>column = 0, offset = 4\<rparr>] = Inr False"
  "HasEdges (cycle_heap (Suc 0)) False [\<lparr>column = 0, offset = 4\<rparr>] = Inr False"
  by (simp_all add: HasEdges_def cycle_heap_fields cycle_graph_fields GetLocatorsByLabel_def
        GetLocatorsByIndex_def signed_divide_int_def signed_modulo_int_def)

text \<open>
  C8.  \<open>BFS\<close> keeps no set of visited nodes.  In the graph of three nodes a, b, c with a
  connected to b and b to a, the search from a for c enqueues b, then a, then b again:
  neither has an edge to c, the queue never becomes empty, and \<open>BFS\<close> does not return,
  whatever order the channel delivers neighbors in.
\<close>

theorem BFS_cycle_never_returns:
  assumes "fair sched"
  shows "run (world0 8) cycle_prog = Inr (cycle_heap, 3, cycle_graph)
       \<and> GetByLabel cycle_graph ''a'' = Inr (Inr 0) \<and> GetByLabel cycle_graph ''c'' = Inr (Inr 2)
       \<and> BFS cycle_heap cycle_graph sched 0 2 = None"
proof -
  let ?L = "\<lparr>column = 0, offset = 4\<rparr> :: Locator"
  let ?S = "set [0, 1 :: nat]"
  have lab: "GetByLabel cycle_graph ''a'' = Inr (Inr 0)" "GetByLabel cycle_graph ''c'' = Inr (Inr 2)"
    by (simp_all add: GetByLabel_def GetByIndex_def cycle_graph_def cycle_prog_def run_eval)
  have stuck: "\<forall>x\<in>?S. HasEdges (cycle_heap x) False [?L] = Inr False
                \<and> (\<exists>ns. sends cycle_heap cycle_graph x = Inr ns \<and> ns \<noteq> [] \<and> set ns \<subseteq> ?S)"
    by (auto simp: cycle_hits cycle_sends)
  have s: "set (sched 0 [1]) = set [1::nat]" using fair_set[OF assms, of 0 "[1]"] .
  have q1: "sched 0 [1] \<noteq> []"
  proof
    assume "sched 0 [1] = []"
    with s show False by simp
  qed
  from s have q2: "set (sched 0 [1]) \<subseteq> ?S" by simp
  note q = q1 q2
  have "bfs_loop cycle_heap cycle_graph sched ?L 1 (sched 0 [1]) = None"
    by (rule bfs_loop_diverges[OF assms stuck q])
  then have "BFS cycle_heap cycle_graph sched 0 2 = None"
    by (simp add: BFS_def cycle_hits Neighbors_def cycle_sends)
  with cycle_run lab show ?thesis by blast
qed

theorem BFS_cycle_never_returns_witness:
  "fair (\<lambda>k xs. xs) \<and> BFS cycle_heap cycle_graph (\<lambda>k xs. xs) 0 2 = None"
proof -
  have f: "fair (\<lambda>k xs. xs)" by (simp add: fair_def)
  from BFS_cycle_never_returns[OF f] f show ?thesis by blast
qed

end
